theory Spec2Isabelle
  imports Complex_Main "HOL-Library.Word" "HOL-Library.Signed_Division" "HOL-Library.Multiset"
begin

section \<open>Conventions of the embedding\<close>

text \<open>
  Go's \<open>int\<close>, \<open>int64\<close> and \<open>time.Duration\<close> values are modelled as \<open>int\<close>; the
  quantities involved (bucket indices, call counts of a ten second window, nanoseconds
  since the clock's epoch) stay far below \<open>2^63\<close>. Go's integer \<open>/\<close> and \<open>%\<close>
  truncate towards zero: they are \<open>sdiv\<close> and \<open>smod\<close>, and a zero divisor panics.
  A \<open>float64\<close> is the real number it stands for, and every \<open>float64\<close> operation
  (a conversion from \<open>int64\<close>, \<open>+\<close>, \<open>-\<close>, \<open>*\<close>, \<open>/\<close>) is the exact operation followed by
  \<open>f64_round\<close>, the rounding to the nearest \<open>float64\<close>. A \<open>uint64\<close> hash is a
  \<open>64 word\<close>. A run-time panic is the \<open>Inl\<close> branch of a result.

  Every reading of the clock (\<open>timex.Now\<close>, \<open>timex.Since\<close>) is a parameter of the
  function that takes it, in the order in which the readings are taken.
\<close>

datatype panic =
    DivideByZero
  | IndexOutOfRange
  | PanicMsg string

type_synonym 'a result = "panic + 'a"

definition go_index :: "'a list \<Rightarrow> int \<Rightarrow> 'a result" where
  "go_index xs i = (if 0 \<le> i \<and> i < int (length xs) then Inr (xs ! nat i) else Inl IndexOutOfRange)"

definition go_rem :: "int \<Rightarrow> int \<Rightarrow> int result" where
  "go_rem a b = (if b = 0 then Inl DivideByZero else Inr (a smod b))"

definition go_quot :: "int \<Rightarrow> int \<Rightarrow> int result" where
  "go_quot a b = (if b = 0 then Inl DivideByZero else Inr (a sdiv b))"

subsection \<open>Rounding to \<open>float64\<close>\<close>

text \<open>
  IEEE 754 binary64, round to nearest, ties to even: a non-zero \<open>x\<close> with
  \<open>2^e \<le> |x| < 2^(e+1)\<close> is rounded to a multiple of \<open>2^(e-52)\<close>, so that 53
  significant bits are kept. \<open>binade n x\<close> finds \<open>e\<close> by halving or doubling \<open>x\<close> at
  most \<open>n\<close> times; 1100 steps reach every exponent of a \<open>float64\<close>. The
  exponent range is not cut off: the numbers here (counts, sums and their ratios) lie
  between \<open>2^(-64)\<close> and \<open>2^64\<close> in absolute value, far from overflow and from the
  subnormal numbers.
\<close>

primrec binade :: "nat \<Rightarrow> real \<Rightarrow> int" where
  "binade 0 x = 0"
| "binade (Suc n) x =
     (if 2 \<le> x then binade n (x / 2) + 1
      else if x < 1 then binade n (2 * x) - 1
      else 0)"

definition round_half_even :: "real \<Rightarrow> int" where
  "round_half_even y =
     (if y - of_int \<lfloor>y\<rfloor> < 1 / 2 then \<lfloor>y\<rfloor>
      else if 1 / 2 < y - of_int \<lfloor>y\<rfloor> then \<lfloor>y\<rfloor> + 1
      else if even \<lfloor>y\<rfloor> then \<lfloor>y\<rfloor> else \<lfloor>y\<rfloor> + 1)"

definition f64_round :: "real \<Rightarrow> real" where
  "f64_round x =
     (if x = 0 then 0
      else sgn x * (of_int (round_half_even (\<bar>x\<bar> / 2 powi (binade 1100 \<bar>x\<bar> - 52)))
                    * 2 powi (binade 1100 \<bar>x\<bar> - 52)))"

section \<open>Rolling window (core/collection/rollingwindow.go)\<close>

record Bucket =
  Sum :: real
  Count :: int

definition Bucket_add :: "Bucket \<Rightarrow> real \<Rightarrow> Bucket" where
  "Bucket_add b v = b\<lparr>Sum := f64_round (Sum b + v), Count := Count b + 1\<rparr>"

definition Bucket_reset :: "Bucket \<Rightarrow> Bucket" where
  "Bucket_reset b = b\<lparr>Sum := 0, Count := 0\<rparr>"

text \<open>The struct \<open>window\<close>: its field \<open>size\<close> is \<open>wsize\<close> here.\<close>

record window =
  buckets :: "Bucket list"
  wsize :: int

definition newWindow :: "int \<Rightarrow> window" where
  "newWindow sz = \<lparr>buckets = replicate (nat sz) \<lparr>Sum = 0, Count = 0\<rparr>, wsize = sz\<rparr>"

text \<open>\<open>w.buckets[offset%w.size].add(v)\<close>\<close>

definition window_add :: "window \<Rightarrow> int \<Rightarrow> real \<Rightarrow> window result" where
  "window_add w offset v =
     (case go_rem offset (wsize w) of
        Inl e \<Rightarrow> Inl e
      | Inr i \<Rightarrow>
          (case go_index (buckets w) i of
             Inl e \<Rightarrow> Inl e
           | Inr b \<Rightarrow> Inr (w\<lparr>buckets := (buckets w)[nat i := Bucket_add b v]\<rparr>)))"

text \<open>\<open>w.buckets[offset%w.size].reset()\<close>\<close>

definition window_resetBucket :: "window \<Rightarrow> int \<Rightarrow> window result" where
  "window_resetBucket w offset =
     (case go_rem offset (wsize w) of
        Inl e \<Rightarrow> Inl e
      | Inr i \<Rightarrow>
          (case go_index (buckets w) i of
             Inl e \<Rightarrow> Inl e
           | Inr b \<Rightarrow> Inr (w\<lparr>buckets := (buckets w)[nat i := Bucket_reset b]\<rparr>)))"

text \<open>
  \<open>window.reduce\<close>: \<open>for i := 0; i < count; i++ { fn(w.buckets[(start+i)%w.size]) }\<close>.
  The callback reads the bucket and updates the state \<open>acc\<close> it closes over.
\<close>

function window_reduce_from ::
  "window \<Rightarrow> int \<Rightarrow> int \<Rightarrow> (Bucket \<Rightarrow> 's \<Rightarrow> 's) \<Rightarrow> int \<Rightarrow> 's \<Rightarrow> 's result" where
  "window_reduce_from w start cnt fn i acc =
     (if i < cnt then
        (case go_rem (start + i) (wsize w) of
           Inl e \<Rightarrow> Inl e
         | Inr j \<Rightarrow>
             (case go_index (buckets w) j of
                Inl e \<Rightarrow> Inl e
              | Inr b \<Rightarrow> window_reduce_from w start cnt fn (i + 1) (fn b acc)))
      else Inr acc)"
  by pat_completeness auto
termination
  by (relation "measure (\<lambda>(w, start, cnt, fn, i, acc). nat (cnt - i))") auto

declare window_reduce_from.simps [simp del]

definition window_reduce ::
  "window \<Rightarrow> int \<Rightarrow> int \<Rightarrow> (Bucket \<Rightarrow> 's \<Rightarrow> 's) \<Rightarrow> 's \<Rightarrow> 's result" where
  "window_reduce w start cnt fn acc = window_reduce_from w start cnt fn 0 acc"

text \<open>The struct \<open>RollingWindow\<close>: its field \<open>size\<close> is \<open>rw_size\<close> here.\<close>

record RollingWindow =
  rw_size :: int
  win :: window
  interval :: int
  offset :: int
  ignoreCurrent :: bool
  lastTime :: int

text \<open>
  \<open>NewRollingWindow(size, interval, opts...)\<close>; the only option is
  \<open>IgnoreCurrentBucket\<close>, given as a flag; \<open>now\<close> is the reading of \<open>timex.Now()\<close>.
\<close>

definition NewRollingWindow :: "int \<Rightarrow> int \<Rightarrow> bool \<Rightarrow> int \<Rightarrow> RollingWindow result" where
  "NewRollingWindow sz iv ignore now =
     (if sz < 1 then Inl (PanicMsg ''size must be greater than 0'')
      else Inr \<lparr>rw_size = sz, win = newWindow sz, interval = iv, offset = 0,
                ignoreCurrent = ignore, lastTime = now\<rparr>)"

text \<open>\<open>span\<close> (here \<open>span_rw\<close>): \<open>now\<close> is the clock reading inside \<open>timex.Since(rw.lastTime)\<close>.\<close>

definition span_rw :: "RollingWindow \<Rightarrow> int \<Rightarrow> int result" where
  "span_rw rw now =
     (case go_quot (now - lastTime rw) (interval rw) of
        Inl e \<Rightarrow> Inl e
      | Inr off \<Rightarrow>
          if 0 \<le> off \<and> off < rw_size rw then Inr off else Inr (rw_size rw))"

text \<open>
  The loop of \<open>updateOffset\<close>:
  \<open>for i := 0; i < span; i++ { rw.win.resetBucket((offset + i + 1) % rw.size) }\<close>
\<close>

function resetExpired :: "window \<Rightarrow> int \<Rightarrow> int \<Rightarrow> int \<Rightarrow> int \<Rightarrow> window result" where
  "resetExpired w off sz sp i =
     (if i < sp then
        (case go_rem (off + i + 1) sz of
           Inl e \<Rightarrow> Inl e
         | Inr j \<Rightarrow>
             (case window_resetBucket w j of
                Inl e \<Rightarrow> Inl e
              | Inr w' \<Rightarrow> resetExpired w' off sz sp (i + 1)))
      else Inr w)"
  by pat_completeness auto
termination
  by (relation "measure (\<lambda>(w, off, sz, sp, i). nat (sp - i))") auto

declare resetExpired.simps [simp del]

text \<open>
  \<open>updateOffset\<close>, the current routine. \<open>now1\<close> is the reading taken by \<open>span\<close>,
  \<open>now2\<close> the later reading of \<open>timex.Now()\<close>.
\<close>

definition updateOffset :: "RollingWindow \<Rightarrow> int \<Rightarrow> int \<Rightarrow> RollingWindow result" where
  "updateOffset rw now1 now2 =
     (case span_rw rw now1 of
        Inl e \<Rightarrow> Inl e
      | Inr sp \<Rightarrow>
          if sp \<le> 0 then Inr rw
          else
            (case resetExpired (win rw) (offset rw) (rw_size rw) sp 0 of
               Inl e \<Rightarrow> Inl e
             | Inr w' \<Rightarrow>
                 (case go_rem (offset rw + sp) (rw_size rw) of
                    Inl e \<Rightarrow> Inl e
                  | Inr off' \<Rightarrow>
                      (case go_rem (now2 - lastTime rw) (interval rw) of
                         Inl e \<Rightarrow> Inl e
                       | Inr r \<Rightarrow>
                           Inr (rw\<lparr>win := w', offset := off', lastTime := now2 - r\<rparr>)))))"

definition Add :: "RollingWindow \<Rightarrow> int \<Rightarrow> int \<Rightarrow> real \<Rightarrow> RollingWindow result" where
  "Add rw now1 now2 v =
     (case updateOffset rw now1 now2 of
        Inl e \<Rightarrow> Inl e
      | Inr rw' \<Rightarrow>
          (case window_add (win rw') (offset rw') v of
             Inl e \<Rightarrow> Inl e
           | Inr w' \<Rightarrow> Inr (rw'\<lparr>win := w'\<rparr>)))"

definition Reduce :: "RollingWindow \<Rightarrow> int \<Rightarrow> (Bucket \<Rightarrow> 's \<Rightarrow> 's) \<Rightarrow> 's \<Rightarrow> 's result" where
  "Reduce rw now fn acc =
     (case span_rw rw now of
        Inl e \<Rightarrow> Inl e
      | Inr sp \<Rightarrow>
          (let diff = (if sp = 0 \<and> ignoreCurrent rw then rw_size rw - 1 else rw_size rw - sp)
           in if diff > 0 then
                (case go_rem (offset rw + sp + 1) (rw_size rw) of
                   Inl e \<Rightarrow> Inl e
                 | Inr start \<Rightarrow> window_reduce (win rw) start diff fn acc)
              else Inr acc))"


subsection \<open>Earlier rotation routines\<close>

text \<open>
  The split-loop routine (the revision of the file with the size check): the buckets
  from \<open>offset + 1\<close> up to the end of the array, then the remainder from position 0;
  \<open>rw.lastTime = timex.Now()\<close>.
\<close>

function resetRange :: "window \<Rightarrow> int \<Rightarrow> int \<Rightarrow> window result" where
  "resetRange w i steps =
     (if i < steps then
        (case window_resetBucket w i of
           Inl e \<Rightarrow> Inl e
         | Inr w' \<Rightarrow> resetRange w' (i + 1) steps)
      else Inr w)"
  by pat_completeness auto
termination
  by (relation "measure (\<lambda>(w, i, steps). nat (steps - i))") auto

declare resetRange.simps [simp del]

definition updateOffset_split :: "RollingWindow \<Rightarrow> int \<Rightarrow> int \<Rightarrow> RollingWindow result" where
  "updateOffset_split rw now1 now2 =
     (case span_rw rw now1 of
        Inl e \<Rightarrow> Inl e
      | Inr sp \<Rightarrow>
          if sp \<le> 0 then Inr rw
          else
            (let start = offset rw + 1;
                 steps0 = start + sp;
                 remainder = (if steps0 > rw_size rw then steps0 - rw_size rw else 0);
                 steps = (if steps0 > rw_size rw then rw_size rw else steps0)
             in case resetRange (win rw) start steps of
                  Inl e \<Rightarrow> Inl e
                | Inr w1 \<Rightarrow>
                    (case resetRange w1 0 remainder of
                       Inl e \<Rightarrow> Inl e
                     | Inr w2 \<Rightarrow>
                         (case go_rem (offset rw + sp) (rw_size rw) of
                            Inl e \<Rightarrow> Inl e
                          | Inr off' \<Rightarrow>
                              Inr (rw\<lparr>win := w2, offset := off', lastTime := now2\<rparr>)))))"

text \<open>
  \<open>Add\<close> of the revision with the split-loop routine (src/unnamed/part_001): the same
  body, over that revision's \<open>updateOffset\<close>.
\<close>

definition Add_split :: "RollingWindow \<Rightarrow> int \<Rightarrow> int \<Rightarrow> real \<Rightarrow> RollingWindow result" where
  "Add_split rw now1 now2 v =
     (case updateOffset_split rw now1 now2 of
        Inl e \<Rightarrow> Inl e
      | Inr rw' \<Rightarrow>
          (case window_add (win rw') (offset rw') v of
             Inl e \<Rightarrow> Inl e
           | Inr w' \<Rightarrow> Inr (rw'\<lparr>win := w'\<rparr>)))"

text \<open>
  The earliest routine: \<open>resetBucket\<close> indexes \<open>w.buckets[offset]\<close> directly, and the
  loops carry the new offset (\<open>offset = i\<close> after each reset).
\<close>

definition window_resetBucket_early :: "window \<Rightarrow> int \<Rightarrow> window result" where
  "window_resetBucket_early w off =
     (case go_index (buckets w) off of
        Inl e \<Rightarrow> Inl e
      | Inr b \<Rightarrow> Inr (w\<lparr>buckets := (buckets w)[nat off := Bucket_reset b]\<rparr>))"

function resetRange_early :: "window \<times> int \<Rightarrow> int \<Rightarrow> int \<Rightarrow> (window \<times> int) result" where
  "resetRange_early (w, off) i steps =
     (if i < steps then
        (case window_resetBucket_early w i of
           Inl e \<Rightarrow> Inl e
         | Inr w' \<Rightarrow> resetRange_early (w', i) (i + 1) steps)
      else Inr (w, off))"
  by pat_completeness auto
termination
  by (relation "measure (\<lambda>(s, i, steps). nat (steps - i))") auto

declare resetRange_early.simps [simp del]

definition updateOffset_early :: "RollingWindow \<Rightarrow> int \<Rightarrow> int \<Rightarrow> RollingWindow result" where
  "updateOffset_early rw now1 now2 =
     (case span_rw rw now1 of
        Inl e \<Rightarrow> Inl e
      | Inr sp \<Rightarrow>
          if sp > 0 then
            (let start = offset rw + 1;
                 steps0 = start + sp;
                 remainder = (if steps0 > rw_size rw then steps0 - rw_size rw else 0);
                 steps = (if steps0 > rw_size rw then rw_size rw else steps0)
             in case resetRange_early (win rw, offset rw) start steps of
                  Inl e \<Rightarrow> Inl e
                | Inr s1 \<Rightarrow>
                    (case resetRange_early s1 0 remainder of
                       Inl e \<Rightarrow> Inl e
                     | Inr (w2, off') \<Rightarrow>
                         Inr (rw\<lparr>win := w2, offset := off', lastTime := now2\<rparr>)))
          else Inr rw)"

subsection \<open>Well-formed windows\<close>

text \<open>
  What \<open>NewRollingWindow\<close> establishes and every operation keeps: at least one bucket,
  the bucket array as long as \<open>size\<close>, and the offset inside the array.
\<close>

definition rw_wf :: "RollingWindow \<Rightarrow> bool" where
  "rw_wf rw \<longleftrightarrow>
     1 \<le> rw_size rw \<and> wsize (win rw) = rw_size rw \<and>
     int (length (buckets (win rw))) = rw_size rw \<and>
     0 \<le> offset rw \<and> offset rw < rw_size rw"

text \<open>The positions that a rotation by \<open>sp\<close> resets: \<open>(off + 1) mod n, ..., (off + sp) mod n\<close>.\<close>

definition expired :: "int \<Rightarrow> int \<Rightarrow> int \<Rightarrow> int set" where
  "expired off n sp = (\<lambda>k. (off + k) mod n) ` {1..sp}"


text \<open>A bucket array with the positions in \<open>P\<close> zeroed (used to state results only).\<close>

definition cleared :: "Bucket list \<Rightarrow> int set \<Rightarrow> Bucket list" where
  "cleared bs P =
     map (\<lambda>j. if int j \<in> P then \<lparr>Sum = 0, Count = 0\<rparr> else bs ! j) [0..<length bs]"


text \<open>
  The window states that a program can build: \<open>NewRollingWindow\<close> at clock reading
  \<open>t0\<close>, then any number of \<open>Add\<close> calls (\<open>Reduce\<close> does not change the window).
\<close>

inductive reachable :: "int \<Rightarrow> RollingWindow \<Rightarrow> bool" for t0 :: int where
  reachable_new: "NewRollingWindow sz iv ign t0 = Inr rw \<Longrightarrow> reachable t0 rw"
| reachable_add: "reachable t0 rw \<Longrightarrow> Add rw now1 now2 v = Inr rw' \<Longrightarrow> reachable t0 rw'"

section \<open>Probability source (core/mathx/proba.go)\<close>

text \<open>
  \<open>Proba\<close> wraps a \<open>rand.Rand\<close>: it is modelled by the sequence of values that
  \<open>Float64()\<close> returns (the field \<open>r\<close>, here \<open>proba_r\<close>) and the number of values
  already drawn. \<open>TrueOnProba\<close> draws one value and compares it with \<open>proba\<close>.
\<close>

record Proba =
  proba_r :: "nat \<Rightarrow> real"
  drawn :: nat

definition TrueOnProba :: "Proba \<Rightarrow> real \<Rightarrow> bool \<times> Proba" where
  "TrueOnProba p proba = (proba_r p (drawn p) < proba, p\<lparr>drawn := drawn p + 1\<rparr>)"

text \<open>A probability source whose \<open>Float64()\<close> always returns \<open>x\<close> (for examples).\<close>

definition const_draws :: "real \<Rightarrow> nat \<Rightarrow> real" where
  "const_draws x n = x"

section \<open>Adaptive throttle (core/breaker/googlebreaker.go)\<close>

text \<open>The constants \<open>window\<close> (in nanoseconds), \<open>buckets\<close>, \<open>k\<close> and \<open>protection\<close>.\<close>

definition breaker_window :: int where "breaker_window = 10 * 1000000000"
definition breaker_buckets :: int where "breaker_buckets = 40"
definition breaker_k :: real where "breaker_k = 3 / 2"
definition protection :: int where "protection = 5"

datatype error = ErrServiceUnavailable | UserError string

text \<open>The struct \<open>googleBreaker\<close>; its fields \<open>k\<close>, \<open>stat\<close>, \<open>proba\<close> carry the prefix \<open>gb_\<close>.\<close>

record googleBreaker =
  gb_k :: real
  gb_stat :: RollingWindow
  gb_proba :: Proba

definition newGoogleBreaker :: "(nat \<Rightarrow> real) \<Rightarrow> int \<Rightarrow> googleBreaker result" where
  "newGoogleBreaker rnd now =
     (case go_quot breaker_window breaker_buckets of
        Inl e \<Rightarrow> Inl e
      | Inr bucketDuration \<Rightarrow>
          (case NewRollingWindow breaker_buckets bucketDuration False now of
             Inl e \<Rightarrow> Inl e
           | Inr st \<Rightarrow>
               Inr \<lparr>gb_k = breaker_k, gb_stat = st, gb_proba = \<lparr>proba_r = rnd, drawn = 0\<rparr>\<rparr>))"

text \<open>The conversion \<open>int64(b.Sum)\<close> of a \<open>float64\<close> truncates towards zero.\<close>

definition go_trunc :: "real \<Rightarrow> int" where
  "go_trunc x = (if 0 \<le> x then \<lfloor>x\<rfloor> else \<lceil>x\<rceil>)"

definition history :: "googleBreaker \<Rightarrow> int \<Rightarrow> (int \<times> int) result" where
  "history b now =
     Reduce (gb_stat b) now
       (\<lambda>bk (accepts, tot). (accepts + go_trunc (Sum bk), tot + Count bk)) (0, 0)"

text \<open>
  \<open>accept\<close> returns the error (\<open>None\<close> for \<open>nil\<close>) and the breaker, whose probability
  source has advanced if it was consulted. The conversions \<open>float64(accepts)\<close>,
  \<open>float64(total-protection)\<close>, \<open>float64(total+1)\<close> and the product, the difference and
  the quotient are \<open>float64\<close> operations, each rounded on its own (the Go specification
  also lets an implementation fuse the product and the difference into one rounding;
  with \<open>k = 1.5\<close> and readings up to \<open>2^50\<close> both are exact and the two evaluations
  agree).
\<close>

definition accept :: "googleBreaker \<Rightarrow> int \<Rightarrow> (error option \<times> googleBreaker) result" where
  "accept b now =
     (case history b now of
        Inl e \<Rightarrow> Inl e
      | Inr (accepts, tot) \<Rightarrow>
          (let weightedAccepts = f64_round (gb_k b * f64_round (real_of_int accepts));
               dropRatio =
                 max 0 (f64_round
                          (f64_round (f64_round (real_of_int (tot - protection)) - weightedAccepts)
                           / f64_round (real_of_int (tot + 1))))
           in if dropRatio \<le> 0 then Inr (None, b)
              else
                (case TrueOnProba (gb_proba b) dropRatio of
                   (truth, p') \<Rightarrow>
                     if truth then Inr (Some ErrServiceUnavailable, b\<lparr>gb_proba := p'\<rparr>)
                     else Inr (None, b\<lparr>gb_proba := p'\<rparr>))))"

definition markSuccess :: "googleBreaker \<Rightarrow> int \<Rightarrow> int \<Rightarrow> googleBreaker result" where
  "markSuccess b now1 now2 =
     (case Add (gb_stat b) now1 now2 1 of
        Inl e \<Rightarrow> Inl e
      | Inr st \<Rightarrow> Inr (b\<lparr>gb_stat := st\<rparr>))"

definition markFailure :: "googleBreaker \<Rightarrow> int \<Rightarrow> int \<Rightarrow> googleBreaker result" where
  "markFailure b now1 now2 =
     (case Add (gb_stat b) now1 now2 0 of
        Inl e \<Rightarrow> Inl e
      | Inr st \<Rightarrow> Inr (b\<lparr>gb_stat := st\<rparr>))"

text \<open>
  \<open>doReq\<close>. The request \<open>req\<close> is given by what it does: it returns an error (or
  \<open>nil\<close>) or it panics. \<open>fallback\<close> is \<open>None\<close> for \<open>nil\<close>. The call leaves by returning
  an error (or \<open>nil\<close>) or by panicking; the breaker it leaves behind is returned with it.
  The clock readings: \<open>ta\<close> for \<open>accept\<close>, the pair \<open>tm\<close> for the first \<open>Add\<close>, the
  pair \<open>tr\<close> for the \<open>Add\<close> of the deferred function when it runs after the first
  \<open>Add\<close> has panicked.
\<close>

datatype req_outcome = ReqReturns "error option" | ReqPanics panic

datatype doReq_exit = Returned "error option" | Panicked panic

text \<open>The deferred function after \<open>recover()\<close> returned \<open>e\<close>: \<open>b.markFailure(); panic(e)\<close>.\<close>

definition doReq_recovered ::
  "googleBreaker \<Rightarrow> panic \<Rightarrow> int \<times> int \<Rightarrow> doReq_exit \<times> googleBreaker" where
  "doReq_recovered b e t =
     (case markFailure b (fst t) (snd t) of
        Inl e' \<Rightarrow> (Panicked e', b)
      | Inr b' \<Rightarrow> (Panicked e, b'))"

definition doReq ::
  "googleBreaker \<Rightarrow> int \<Rightarrow> int \<times> int \<Rightarrow> int \<times> int \<Rightarrow> req_outcome \<Rightarrow>
   (error \<Rightarrow> error option) option \<Rightarrow> (error option \<Rightarrow> bool) \<Rightarrow> doReq_exit \<times> googleBreaker" where
  "doReq b ta tm tr req fallback acceptable =
     (case accept b ta of
        Inl e \<Rightarrow> (Panicked e, b)
      | Inr (Some err, b1) \<Rightarrow>
          (case fallback of
             Some f \<Rightarrow> (Returned (f err), b1)
           | None \<Rightarrow> (Returned (Some err), b1))
      | Inr (None, b1) \<Rightarrow>
          (case req of
             ReqPanics e \<Rightarrow> doReq_recovered b1 e tm
           | ReqReturns err \<Rightarrow>
               (case (if acceptable err then markSuccess b1 (fst tm) (snd tm)
                      else markFailure b1 (fst tm) (snd tm)) of
                  Inl e \<Rightarrow> doReq_recovered b1 e tr
                | Inr b2 \<Rightarrow> (Returned err, b2))))"

section \<open>Consistent hash ring (core/hash/consistenthash.go)\<close>

definition TopWeight :: int where "TopWeight = 100"
definition minReplicas :: int where "minReplicas = 100"

type_synonym uint64 = "64 word"

text \<open>\<open>strconv.Itoa\<close>: the decimal rendering of an integer.\<close>

function decimal :: "nat \<Rightarrow> string" where
  "decimal n = (if n < 10 then [''0123456789'' ! n]
                else decimal (n div 10) @ [''0123456789'' ! (n mod 10)])"
  by pat_completeness auto
termination
  by (relation "measure (\<lambda>n. n)") auto

declare decimal.simps [simp del]

definition Itoa :: "int \<Rightarrow> string" where
  "Itoa i = (if i < 0 then CHR ''-'' # decimal (nat (- i)) else decimal (nat i))"

text \<open>
  \<open>sort.Search(n, f)\<close>: binary search for the smallest index in \<open>[0, n]\<close> at which \<open>f\<close>
  holds (from Go's standard library).
\<close>

function Search_loop :: "(int \<Rightarrow> bool) \<Rightarrow> int \<Rightarrow> int \<Rightarrow> int" where
  "Search_loop f i j =
     (if i < j then
        (let h = (i + j) div 2
         in if \<not> f h then Search_loop f (h + 1) j else Search_loop f i h)
      else i)"
  by pat_completeness auto
termination
  by (relation "measure (\<lambda>(f, i, j). nat (j - i))") auto

declare Search_loop.simps [simp del]

definition Search :: "int \<Rightarrow> (int \<Rightarrow> bool) \<Rightarrow> int" where
  "Search n f = Search_loop f 0 n"

text \<open>
  The struct \<open>ConsistentHash\<close>. A node is a value of any type \<open>'a\<close>; \<open>repr\<close>
  (\<open>mapping.Repr\<close>, not part of these sources) is a parameter of the operations. The
  set \<open>nodes\<close> is the key set of the map \<open>nodes\<close> of the source.
\<close>

record 'a ConsistentHash =
  hashFunc :: "string \<Rightarrow> uint64"
  replicas :: int
  keys :: "uint64 list"
  ring :: "uint64 \<rightharpoonup> 'a list"
  nodes :: "string set"

text \<open>\<open>NewCustomConsistentHash(replicas, fn)\<close>; \<open>dflt\<close> is the package's \<open>Hash\<close>, taken when \<open>fn\<close> is \<open>nil\<close>.\<close>

definition NewCustomConsistentHash ::
  "(string \<Rightarrow> uint64) \<Rightarrow> int \<Rightarrow> (string \<Rightarrow> uint64) option \<Rightarrow> 'a ConsistentHash" where
  "NewCustomConsistentHash dflt n fn =
     \<lparr>hashFunc = (case fn of None \<Rightarrow> dflt | Some f \<Rightarrow> f),
      replicas = (if n < minReplicas then minReplicas else n),
      keys = [], ring = Map.empty, nodes = {}\<rparr>"

definition addNode :: "'a ConsistentHash \<Rightarrow> string \<Rightarrow> 'a ConsistentHash" where
  "addNode h nodeRepr = h\<lparr>nodes := insert nodeRepr (nodes h)\<rparr>"

definition containsNode :: "'a ConsistentHash \<Rightarrow> string \<Rightarrow> bool" where
  "containsNode h nodeRepr \<longleftrightarrow> nodeRepr \<in> nodes h"

definition removeNode :: "'a ConsistentHash \<Rightarrow> string \<Rightarrow> 'a ConsistentHash" where
  "removeNode h nodeRepr = h\<lparr>nodes := nodes h - {nodeRepr}\<rparr>"

definition removeRingNode ::
  "('a \<Rightarrow> string) \<Rightarrow> 'a ConsistentHash \<Rightarrow> uint64 \<Rightarrow> string \<Rightarrow> 'a ConsistentHash" where
  "removeRingNode repr h hash nodeRepr =
     (case ring h hash of
        None \<Rightarrow> h
      | Some ns \<Rightarrow>
          (let newNodes = filter (\<lambda>x. repr x \<noteq> nodeRepr) ns
           in if length newNodes > 0 then h\<lparr>ring := (ring h)(hash \<mapsto> newNodes)\<rparr>
              else h\<lparr>ring := (ring h)(hash := None)\<rparr>))"

text \<open>
  The body of the loop of \<open>Remove\<close> for the virtual index \<open>i\<close>: the key at the index
  that \<open>sort.Search\<close> returns is cut out of \<open>keys\<close> whenever that index is inside the
  slice, then the node is taken out of the ring bucket of the hash.
\<close>

definition Remove_step ::
  "('a \<Rightarrow> string) \<Rightarrow> 'a ConsistentHash \<Rightarrow> string \<Rightarrow> int \<Rightarrow> 'a ConsistentHash" where
  "Remove_step repr h nodeRepr i =
     (let hash = hashFunc h (nodeRepr @ Itoa i);
          index = Search (int (length (keys h))) (\<lambda>i. keys h ! nat i \<ge> hash);
          h1 = (if index < int (length (keys h))
                then h\<lparr>keys := take (nat index) (keys h) @ drop (nat (index + 1)) (keys h)\<rparr>
                else h)
      in removeRingNode repr h1 hash nodeRepr)"

text \<open>
  \<open>for i := 0; i < h.replicas; i++ { ... }\<close>; the bound \<open>n\<close> is \<open>h.replicas\<close>, which the
  body does not change.
\<close>

function Remove_loop ::
  "('a \<Rightarrow> string) \<Rightarrow> 'a ConsistentHash \<Rightarrow> string \<Rightarrow> int \<Rightarrow> int \<Rightarrow> 'a ConsistentHash" where
  "Remove_loop repr h nodeRepr n i =
     (if i < n then Remove_loop repr (Remove_step repr h nodeRepr i) nodeRepr n (i + 1) else h)"
  by pat_completeness auto
termination
  by (relation "measure (\<lambda>(repr, h, nodeRepr, n, i). nat (n - i))") auto

declare Remove_loop.simps [simp del]

definition ch_Remove :: "('a \<Rightarrow> string) \<Rightarrow> 'a ConsistentHash \<Rightarrow> 'a \<Rightarrow> 'a ConsistentHash" where
  "ch_Remove repr h node =
     (let nodeRepr = repr node
      in if \<not> containsNode h nodeRepr then h
         else removeNode (Remove_loop repr h nodeRepr (replicas h) 0) nodeRepr)"

text \<open>The body of the loop of \<open>AddWithReplicas\<close> for the virtual index \<open>i\<close>.\<close>

definition AddWithReplicas_step ::
  "'a ConsistentHash \<Rightarrow> 'a \<Rightarrow> string \<Rightarrow> int \<Rightarrow> 'a ConsistentHash" where
  "AddWithReplicas_step h node nodeRepr i =
     (let hash = hashFunc h (nodeRepr @ Itoa i)
      in h\<lparr>keys := keys h @ [hash],
           ring := (ring h)(hash \<mapsto> (case ring h hash of None \<Rightarrow> [] | Some ns \<Rightarrow> ns) @ [node])\<rparr>)"

function AddWithReplicas_loop ::
  "'a ConsistentHash \<Rightarrow> 'a \<Rightarrow> string \<Rightarrow> int \<Rightarrow> int \<Rightarrow> 'a ConsistentHash" where
  "AddWithReplicas_loop h node nodeRepr n i =
     (if i < n then AddWithReplicas_loop (AddWithReplicas_step h node nodeRepr i) node nodeRepr n (i + 1)
      else h)"
  by pat_completeness auto
termination
  by (relation "measure (\<lambda>(h, node, nodeRepr, n, i). nat (n - i))") auto

declare AddWithReplicas_loop.simps [simp del]

text \<open>\<open>sort.Slice\<close> with the comparison \<open>h.keys[i] < h.keys[j]\<close> is \<open>sort\<close>.\<close>

definition ch_AddWithReplicas ::
  "('a \<Rightarrow> string) \<Rightarrow> 'a ConsistentHash \<Rightarrow> 'a \<Rightarrow> int \<Rightarrow> 'a ConsistentHash" where
  "ch_AddWithReplicas repr h node n =
     (let h1 = ch_Remove repr h node;
          n' = (if n > replicas h1 then replicas h1 else n);
          nodeRepr = repr node;
          h2 = addNode h1 nodeRepr;
          h3 = AddWithReplicas_loop h2 node nodeRepr n' 0
      in h3\<lparr>keys := sort (keys h3)\<rparr>)"

definition ch_Add :: "('a \<Rightarrow> string) \<Rightarrow> 'a ConsistentHash \<Rightarrow> 'a \<Rightarrow> 'a ConsistentHash" where
  "ch_Add repr h node = ch_AddWithReplicas repr h node (replicas h)"

definition ch_AddWithWeight ::
  "('a \<Rightarrow> string) \<Rightarrow> 'a ConsistentHash \<Rightarrow> 'a \<Rightarrow> int \<Rightarrow> 'a ConsistentHash" where
  "ch_AddWithWeight repr h node weight =
     ch_AddWithReplicas repr h node ((replicas h * weight) sdiv TopWeight)"

text \<open>The rings that a program can build.\<close>

inductive ch_reachable :: "('a \<Rightarrow> string) \<Rightarrow> 'a ConsistentHash \<Rightarrow> bool"
  for repr :: "'a \<Rightarrow> string" where
  ch_new: "ch_reachable repr (NewCustomConsistentHash dflt n fn)"
| ch_add: "ch_reachable repr h \<Longrightarrow> ch_reachable repr (ch_AddWithReplicas repr h node n)"
| ch_remove: "ch_reachable repr h \<Longrightarrow> ch_reachable repr (ch_Remove repr h node)"

text \<open>The nodes in the ring bucket of a hash (used to state results only).\<close>

definition bucket_of :: "'a ConsistentHash \<Rightarrow> uint64 \<Rightarrow> 'a set" where
  "bucket_of h g = (case ring h g of None \<Rightarrow> {} | Some ns \<Rightarrow> set ns)"

text \<open>
  An invariant of the rings that a program can build: a node sits in the ring bucket of
  a hash only if that hash is one of its virtual positions.
\<close>

definition ring_inv :: "('a \<Rightarrow> string) \<Rightarrow> 'a ConsistentHash \<Rightarrow> bool" where
  "ring_inv repr h \<longleftrightarrow>
     (\<forall>g x. x \<in> bucket_of h g \<longrightarrow>
        (\<exists>i. 0 \<le> i \<and> i < replicas h \<and> g = hashFunc h (repr x @ Itoa i)))"


text \<open>A hash function for examples: the length of the input.\<close>

definition length_hash :: "string \<Rightarrow> uint64" where
  "length_hash s = of_nat (length s)"

section \<open>Shared calls (core/syncx/sharedcalls.go)\<close>

text \<open>
  The group is used by several goroutines at once. Its executions are modelled as the
  interleavings of atomic steps: a section that runs under \<open>g.lock\<close> is one step, and so
  is each operation on a \<open>WaitGroup\<close>. A call record lives at an address (a \<open>nat\<close>);
  \<open>wg\<close> is the counter of its \<open>WaitGroup\<close>: 1 while the call is pending, 0 once
  \<open>wg.Done()\<close> has released the waiters.
\<close>

record 'v call =
  wg :: nat
  val :: "'v option"
  err :: "error option"

text \<open>What the function \<open>fn\<close> passed to \<open>Do\<close>/\<open>DoEx\<close> does: it returns or it panics.\<close>

datatype 'v fn_outcome = FnReturns 'v "error option" | FnPanics panic

text \<open>
  Where a goroutine stands. The flag \<open>ex\<close> tells \<open>DoEx\<close> from \<open>Do\<close> (which drops
  \<open>fresh\<close> from the result).
  \<^item> \<open>Entered\<close>: it has called \<open>Do\<close>/\<open>DoEx\<close> and is about to take the lock in \<open>createCall\<close>;
  \<^item> \<open>Waiting c\<close>: it found the record \<open>c\<close> under the key and is in \<open>c.wg.Wait()\<close>;
  \<^item> \<open>Calling c key fo\<close>: it has stored the new record \<open>c\<close> under \<open>key\<close> and is in
    \<open>makeCall\<close>, about to run \<open>fn\<close>;
  \<^item> \<open>Deferred c key po\<close>: \<open>fn\<close> has returned (its results are stored in \<open>c\<close>) or
    panicked with \<open>po\<close>, and the deferred function is about to take the lock;
  \<^item> \<open>Signalling c po\<close>: the deferred function has deleted the key and released the
    lock, and is about to call \<open>c.wg.Done()\<close>;
  \<^item> \<open>Finished\<close>: \<open>Do\<close>/\<open>DoEx\<close> has returned \<open>(val, fresh, err)\<close>;
  \<^item> \<open>Panicking\<close>: the panic of \<open>fn\<close> goes on after the deferred function.
\<close>

datatype 'v pc =
    Idle
  | Entered string "'v fn_outcome" bool
  | Waiting nat bool
  | Calling nat string "'v fn_outcome" bool
  | Deferred nat string "panic option" bool
  | Signalling nat "panic option" bool
  | Finished "'v option" bool "error option"
  | Panicking panic

text \<open>
  The state: the map \<open>g.calls\<close> (from keys to addresses of records), the records
  allocated so far, and where each goroutine stands.
\<close>

record 'v sharedGroup =
  calls :: "string \<rightharpoonup> nat"
  mem :: "nat \<rightharpoonup> 'v call"
  pcs :: "nat \<Rightarrow> 'v pc"

definition NewSharedCalls :: "'v sharedGroup" where
  "NewSharedCalls = \<lparr>calls = Map.empty, mem = Map.empty, pcs = (\<lambda>t. Idle)\<rparr>"

inductive sc_step :: "'v sharedGroup \<Rightarrow> 'v sharedGroup \<Rightarrow> bool" where
  enter:
    "pcs s t = Idle \<Longrightarrow>
     sc_step s (s\<lparr>pcs := (pcs s)(t := Entered key fo ex)\<rparr>)"
| createCall_found:
    "pcs s t = Entered key fo ex \<Longrightarrow> calls s key = Some c \<Longrightarrow>
     sc_step s (s\<lparr>pcs := (pcs s)(t := Waiting c ex)\<rparr>)"
| createCall_new:
    "pcs s t = Entered key fo ex \<Longrightarrow> calls s key = None \<Longrightarrow> c \<notin> dom (mem s) \<Longrightarrow>
     sc_step s (s\<lparr>calls := (calls s)(key \<mapsto> c),
                  mem := (mem s)(c \<mapsto> \<lparr>wg = 1, val = None, err = None\<rparr>),
                  pcs := (pcs s)(t := Calling c key fo ex)\<rparr>)"
| wait_released:
    "pcs s t = Waiting c ex \<Longrightarrow> mem s c = Some r \<Longrightarrow> wg r = 0 \<Longrightarrow>
     sc_step s (s\<lparr>pcs := (pcs s)(t := Finished (val r) False (err r))\<rparr>)"
| fn_returns:
    "pcs s t = Calling c key (FnReturns v e) ex \<Longrightarrow> mem s c = Some r \<Longrightarrow>
     sc_step s (s\<lparr>mem := (mem s)(c \<mapsto> r\<lparr>val := Some v, err := e\<rparr>),
                  pcs := (pcs s)(t := Deferred c key None ex)\<rparr>)"
| fn_panics:
    "pcs s t = Calling c key (FnPanics p) ex \<Longrightarrow>
     sc_step s (s\<lparr>pcs := (pcs s)(t := Deferred c key (Some p) ex)\<rparr>)"
| delete_key:
    "pcs s t = Deferred c key po ex \<Longrightarrow>
     sc_step s (s\<lparr>calls := (calls s)(key := None),
                  pcs := (pcs s)(t := Signalling c po ex)\<rparr>)"
| wg_done:
    "pcs s t = Signalling c po ex \<Longrightarrow> mem s c = Some r \<Longrightarrow> 0 < wg r \<Longrightarrow>
     sc_step s (s\<lparr>mem := (mem s)(c \<mapsto> r\<lparr>wg := wg r - 1\<rparr>),
                  pcs := (pcs s)(t := (case po of
                                         None \<Rightarrow> Finished (val r) True (err r)
                                       | Some p \<Rightarrow> Panicking p))\<rparr>)"
| wg_done_negative:
    "pcs s t = Signalling c po ex \<Longrightarrow> mem s c = Some r \<Longrightarrow> wg r = 0 \<Longrightarrow>
     sc_step s (s\<lparr>pcs := (pcs s)(t := Panicking (PanicMsg ''sync: negative WaitGroup counter''))\<rparr>)"
| returned:
    "pcs s t = Finished v fresh e \<Longrightarrow>
     sc_step s (s\<lparr>pcs := (pcs s)(t := Idle)\<rparr>)"
| recovered:
    "pcs s t = Panicking p \<Longrightarrow>
     sc_step s (s\<lparr>pcs := (pcs s)(t := Idle)\<rparr>)"

inductive sc_reachable :: "'v sharedGroup \<Rightarrow> bool" where
  sc_init: "sc_reachable NewSharedCalls"
| sc_next: "sc_reachable s \<Longrightarrow> sc_step s s' \<Longrightarrow> sc_reachable s'"

text \<open>The record and key a goroutine has in the index, and the record it is to signal.\<close>

fun indexing :: "'v pc \<Rightarrow> (nat \<times> string) option" where
  "indexing (Calling c key fo ex) = Some (c, key)"
| "indexing (Deferred c key po ex) = Some (c, key)"
| "indexing p = None"

fun owning :: "'v pc \<Rightarrow> nat option" where
  "owning (Calling c key fo ex) = Some c"
| "owning (Deferred c key po ex) = Some c"
| "owning (Signalling c po ex) = Some c"
| "owning p = None"

definition sc_inv :: "'v sharedGroup \<Rightarrow> bool" where
  "sc_inv s \<longleftrightarrow>
     (\<forall>key c. calls s key = Some c \<longrightarrow>
        (\<exists>r. mem s c = Some r \<and> wg r = 1) \<and> (\<exists>t. indexing (pcs s t) = Some (c, key))) \<and>
     (\<forall>t t' c. owning (pcs s t) = Some c \<and> owning (pcs s t') = Some c \<longrightarrow> t = t') \<and>
     (\<forall>t c. owning (pcs s t) = Some c \<longrightarrow> c \<in> dom (mem s))"

section \<open>Proofs: rounding to \<open>float64\<close>\<close>

lemma two_powi_Suc: "(2::real) powi (k + 1) = 2 * 2 powi k"
  by (simp add: power_int_add_1')

lemma two_powi_pred: "(2::real) powi (k - 1) = 2 powi k / 2"
  using two_powi_Suc[of "k - 1"] by simp

lemma binade_eq:
  "2 powi k \<le> x \<Longrightarrow> x < 2 powi (k + 1) \<Longrightarrow> \<bar>k\<bar> \<le> int n \<Longrightarrow> binade n x = k"
proof (induction n arbitrary: x k)
  case 0
  then show ?case by simp
next
  case (Suc n)
  show ?case
  proof (cases "2 \<le> x")
    case True
    have "\<not> k \<le> 0"
    proof
      assume "k \<le> 0"
      then have "(2::real) powi (k + 1) \<le> 2 powi 1"
        by (intro power_int_increasing) simp_all
      with Suc.prems(2) True show False by simp
    qed
    then have k: "1 \<le> k" by simp
    have a: "2 powi (k - 1) \<le> x / 2" using Suc.prems(1) by (simp add: two_powi_pred)
    have b: "x / 2 < 2 powi (k - 1 + 1)" using Suc.prems(2) by (simp add: two_powi_Suc)
    have c: "\<bar>k - 1\<bar> \<le> int n" using k Suc.prems(3) by simp
    from Suc.IH[OF a b c] True show ?thesis by simp
  next
    case False
    show ?thesis
    proof (cases "x < 1")
      case True
      have "\<not> 0 \<le> k"
      proof
        assume "0 \<le> k"
        then have "(2::real) powi 0 \<le> 2 powi k"
          by (intro power_int_increasing) simp_all
        with Suc.prems(1) True show False by simp
      qed
      then have k: "k \<le> -1" by simp
      have a: "2 powi (k + 1) \<le> 2 * x" using Suc.prems(1) by (simp add: two_powi_Suc)
      have b: "2 * x < 2 powi (k + 1 + 1)"
        unfolding two_powi_Suc[of "k + 1"] using Suc.prems(2) by simp
      have c: "\<bar>k + 1\<bar> \<le> int n" using k Suc.prems(3) by simp
      from Suc.IH[OF a b c] True False show ?thesis by simp
    next
      case F: False
      have "\<not> 1 \<le> k"
      proof
        assume "1 \<le> k"
        then have "(2::real) powi 1 \<le> 2 powi k"
          by (intro power_int_increasing) simp_all
        with Suc.prems(1) False show False by simp
      qed
      moreover have "\<not> k \<le> -1"
      proof
        assume "k \<le> -1"
        then have "(2::real) powi (k + 1) \<le> 2 powi 0"
          by (intro power_int_increasing) simp_all
        with Suc.prems(2) F show False by simp
      qed
      ultimately have "k = 0" by simp
      with False F show ?thesis by simp
    qed
  qed
qed

lemma round_half_even_of_int [simp]: "round_half_even (of_int n) = n"
  by (simp add: round_half_even_def)

lemma round_half_even_nonneg: "0 \<le> y \<Longrightarrow> 0 \<le> round_half_even y"
  by (auto simp: round_half_even_def)

lemma f64_round_0 [simp]: "f64_round 0 = 0"
  by (simp add: f64_round_def)

lemma f64_round_minus: "f64_round (- x) = - f64_round x"
  by (simp add: f64_round_def sgn_minus)

lemma f64_round_nonneg: "0 \<le> x \<Longrightarrow> 0 \<le> f64_round x"
  by (auto simp: f64_round_def sgn_if intro!: mult_nonneg_nonneg round_half_even_nonneg)

lemma f64_round_nonpos: "x \<le> 0 \<Longrightarrow> f64_round x \<le> 0"
  using f64_round_nonneg[of "- x"] by (simp add: f64_round_minus)

lemma f64_round_binade:
  assumes "x \<noteq> 0" "2 powi k \<le> \<bar>x\<bar>" "\<bar>x\<bar> < 2 powi (k + 1)" "\<bar>k\<bar> \<le> 1100"
  shows "f64_round x =
           sgn x * (of_int (round_half_even (\<bar>x\<bar> / 2 powi (k - 52))) * 2 powi (k - 52))"
proof -
  have "binade 1100 \<bar>x\<bar> = k" using assms(2,3,4) by (intro binade_eq) simp_all
  then show ?thesis using assms(1) by (simp add: f64_round_def)
qed

lemma binade_exists:
  fixes x :: real
  assumes "0 < x"
  shows "\<exists>k. 2 powi k \<le> x \<and> x < 2 powi (k + 1)"
proof -
  have "2 powr (of_int \<lfloor>log 2 x\<rfloor>) \<le> x \<and> x < 2 powr (of_int (\<lfloor>log 2 x\<rfloor> + 1))"
    using floor_log_eq_powr_iff[of x 2 "\<lfloor>log 2 x\<rfloor>"] assms by simp
  then have "2 powi \<lfloor>log 2 x\<rfloor> \<le> x \<and> x < 2 powi (\<lfloor>log 2 x\<rfloor> + 1)"
    by (simp only: powr_real_of_int'[of 2, simplified])
  then show ?thesis by blast
qed

lemma two_powi_split: "(2::real) powi (a + b) = 2 powi a * 2 powi b"
  by (simp add: power_int_add)

lemma f64_round_dyadic:
  assumes "0 < m" "m < 2 ^ 53" "\<bar>j\<bar> \<le> 1000"
  shows "f64_round (of_int m * 2 powi j) = of_int m * 2 powi j"
proof -
  have "1 \<le> nat m" using assms(1) by simp
  from ex_power_ivl1[OF _ this, of 2] obtain p :: nat
    where p: "2 ^ p \<le> nat m" "nat m < 2 ^ (p + 1)" by auto
  have pm: "(2::int) ^ p \<le> m" "m < 2 ^ (p + 1)"
    using p assms(1) by (simp_all add: le_nat_iff nat_less_iff)
  have "(2::int) ^ p < 2 ^ 53" using pm(1) assms(2) by linarith
  then have "p < 53" by (rule power_less_imp_less_exp[rotated]) simp
  then have p52: "p \<le> 52" by simp
  define k where "k = int p + j"
  let ?x = "of_int m * 2 powi j :: real"
  have x0: "0 < ?x" using assms(1) by simp
  have lo: "2 powi k \<le> \<bar>?x\<bar>"
  proof -
    have "(2::real) ^ p \<le> of_int m" using pm(1) by (metis of_int_le_iff of_int_numeral of_int_power)
    then have "(2::real) ^ p * 2 powi j \<le> of_int m * 2 powi j"
      by (intro mult_right_mono) simp_all
    then show ?thesis using x0 by (simp add: k_def two_powi_split)
  qed
  have hi: "\<bar>?x\<bar> < 2 powi (k + 1)"
  proof -
    have "of_int m < (2::real) ^ (p + 1)" using pm(2) by (metis of_int_less_iff of_int_numeral of_int_power)
    then have "of_int m * 2 powi j < (2::real) ^ (p + 1) * 2 powi j"
      by (intro mult_strict_right_mono) simp_all
    moreover have "(2::real) powi (k + 1) = 2 ^ (p + 1) * 2 powi j"
    proof -
      have "k + 1 = int (p + 1) + j" by (simp add: k_def)
      then have "(2::real) powi (k + 1) = 2 powi (int (p + 1)) * 2 powi j"
        by (simp only: two_powi_split)
      then show ?thesis by (simp only: power_int_of_nat)
    qed
    ultimately show ?thesis using x0 by simp
  qed
  have kr: "\<bar>k\<bar> \<le> 1100" using p52 assms(3) by (simp add: k_def)
  have je: "j = int (52 - p) + (k - 52)" using p52 by (simp add: k_def)
  have A: "(2::real) powi j = 2 powi (int (52 - p)) * 2 powi (k - 52)"
    by (subst je) (simp only: two_powi_split)
  have xe: "?x = (of_int m * 2 ^ (52 - p)) * 2 powi (k - 52)"
    unfolding A by (simp only: power_int_of_nat mult.assoc)
  have sc: "\<bar>?x\<bar> / 2 powi (k - 52) = of_int (m * 2 ^ (52 - p))"
  proof -
    have "\<bar>?x\<bar> = (of_int m * 2 ^ (52 - p)) * 2 powi (k - 52)"
      using x0 xe by (simp only: abs_of_pos)
    then have "\<bar>?x\<bar> / 2 powi (k - 52) = of_int m * 2 ^ (52 - p)"
      by simp
    then show ?thesis by simp
  qed
  have xn: "?x \<noteq> 0" using assms(1) by simp
  have "f64_round ?x = sgn ?x * (of_int (round_half_even (\<bar>?x\<bar> / 2 powi (k - 52))) * 2 powi (k - 52))"
    by (rule f64_round_binade[OF xn lo hi kr])
  also have "\<dots> = of_int (m * 2 ^ (52 - p)) * 2 powi (k - 52)"
    unfolding sc round_half_even_of_int using x0 by simp
  also have "\<dots> = ?x" unfolding xe by simp
  finally show ?thesis .
qed

lemma f64_round_int:
  assumes "\<bar>n\<bar> < 2 ^ 53"
  shows "f64_round (of_int n) = of_int n"
proof -
  have pos: "\<And>m. 0 < m \<Longrightarrow> m < 2 ^ 53 \<Longrightarrow> f64_round (of_int m) = of_int m"
    using f64_round_dyadic[of _ 0] by simp
  consider "n = 0" | "0 < n" | "n < 0" by linarith
  then show ?thesis
  proof cases
    case 1 then show ?thesis by simp
  next
    case 2 with assms pos show ?thesis by simp
  next
    case 3
    then have "f64_round (of_int (- n)) = of_int (- n)" using assms by (intro pos) simp_all
    then show ?thesis by (simp add: f64_round_minus)
  qed
qed

lemma f64_round_half:
  assumes "\<bar>m\<bar> < 2 ^ 53"
  shows "f64_round (of_int m / 2) = of_int m / 2"
proof -
  have pos: "\<And>m. 0 < m \<Longrightarrow> m < 2 ^ 53 \<Longrightarrow> f64_round (of_int m / 2) = of_int m / 2"
    using f64_round_dyadic[of _ "-1"] by simp
  consider "m = 0" | "0 < m" | "m < 0" by linarith
  then show ?thesis
  proof cases
    case 1 then show ?thesis by simp
  next
    case 2 with assms pos show ?thesis by simp
  next
    case 3
    then have "f64_round (of_int (- m) / 2) = of_int (- m) / 2" using assms by (intro pos) simp_all
    then have "f64_round (- (of_int m / 2)) = - (of_int m / 2)" by simp
    then show ?thesis by (simp add: f64_round_minus)
  qed
qed

lemma f64_round_one [simp]: "f64_round 1 = 1"
  using f64_round_int[of 1] by simp

lemma round_half_even_le: "round_half_even y \<le> \<lfloor>y\<rfloor> + 1"
  by (simp add: round_half_even_def)

lemma f64_round_le_one:
  assumes "0 < x" "x < 1" "2 powi (- 1000) \<le> x"
  shows "f64_round x \<le> 1"
proof -
  from binade_exists[OF assms(1)] obtain k where k: "2 powi k \<le> x" "x < 2 powi (k + 1)" by blast
  have "\<not> 0 \<le> k"
  proof
    assume "0 \<le> k"
    then have "(2::real) powi 0 \<le> 2 powi k" by (intro power_int_increasing) simp_all
    with k(1) assms(2) show False by simp
  qed
  then have k1: "k + 1 \<le> 0" by simp
  have "\<not> k + 1 \<le> - 1000"
  proof
    assume "k + 1 \<le> - 1000"
    then have "(2::real) powi (k + 1) \<le> 2 powi (- 1000)" by (intro power_int_increasing) simp_all
    with k(2) assms(3) show False by simp
  qed
  then have kr: "\<bar>k\<bar> \<le> 1100" using k1 by simp
  let ?y = "x / 2 powi (k - 52)"
  have e: "f64_round x = of_int (round_half_even ?y) * 2 powi (k - 52)"
    using f64_round_binade[of x k] assms(1) k kr by simp
  have "k + 1 = (k - 52) + 53" by simp
  then have "(2::real) powi (k + 1) = 2 powi (k - 52) * 2 powi 53"
    by (simp only: two_powi_split)
  then have "?y < 2 powi 53" using k(2) by (simp add: field_simps)
  then have "?y < of_int (2 ^ 53)" by simp
  then have "\<lfloor>?y\<rfloor> < 2 ^ 53" by (simp only: floor_less_iff)
  then have "round_half_even ?y \<le> 2 ^ 53" using round_half_even_le[of ?y] by linarith
  then have "(of_int (round_half_even ?y) :: real) \<le> of_int (2 ^ 53)" by (simp only: of_int_le_iff)
  then have "of_int (round_half_even ?y) * 2 powi (k - 52) \<le> (2::real) ^ 53 * 2 powi (k - 52)"
    by (intro mult_right_mono) simp_all
  also have "\<dots> = 2 powi (k + 1)"
  proof -
    have "k + 1 = 53 + (k - 52)" by simp
    then have "(2::real) powi (k + 1) = 2 powi 53 * 2 powi (k - 52)"
      by (simp only: two_powi_split)
    moreover have "(2::real) powi 53 = 2 ^ 53" by (rule power_int_numeral)
    ultimately show ?thesis by (simp only:)
  qed
  also have "\<dots> \<le> 2 powi 0" using k1 by (intro power_int_increasing) simp_all
  finally show ?thesis unfolding e by simp
qed

section \<open>Proofs: rolling window\<close>

lemma go_rem_pos: "0 \<le> a \<Longrightarrow> 0 < b \<Longrightarrow> go_rem a b = Inr (a mod b)"
  by (simp add: go_rem_def signed_modulo_int_def sgn_if)

lemma go_quot_pos: "0 \<le> a \<Longrightarrow> 0 < b \<Longrightarrow> go_quot a b = Inr (a div b)"
  by (simp add: go_quot_def signed_divide_int_def sgn_if)

lemma go_index_in: "0 \<le> i \<Longrightarrow> i < int (length xs) \<Longrightarrow> go_index xs i = Inr (xs ! nat i)"
  by (simp add: go_index_def)

lemma Bucket_reset_eq: "Bucket_reset b = \<lparr>Sum = 0, Count = 0\<rparr>"
  by (cases b) (simp add: Bucket_reset_def)

lemma length_cleared [simp]: "length (cleared bs P) = length bs"
  by (simp add: cleared_def)

lemma nth_cleared:
  "j < length bs \<Longrightarrow> cleared bs P ! j = (if int j \<in> P then \<lparr>Sum = 0, Count = 0\<rparr> else bs ! j)"
  by (simp add: cleared_def)

lemma cleared_empty [simp]: "cleared bs {} = bs"
  by (rule nth_equalityI) (simp_all add: nth_cleared)

lemma cleared_update:
  assumes "0 \<le> j" "j < int (length bs)"
  shows "cleared (bs[nat j := \<lparr>Sum = 0, Count = 0\<rparr>]) P = cleared bs (insert j P)"
proof (rule nth_equalityI)
  show "length (cleared (bs[nat j := \<lparr>Sum = 0, Count = 0\<rparr>]) P) = length (cleared bs (insert j P))"
    by simp
next
  fix i assume "i < length (cleared (bs[nat j := \<lparr>Sum = 0, Count = 0\<rparr>]) P)"
  then have il: "i < length bs" by simp
  show "cleared (bs[nat j := \<lparr>Sum = 0, Count = 0\<rparr>]) P ! i = cleared bs (insert j P) ! i"
  proof (cases "int i = j")
    case True
    then have "nat j = i" by auto
    with il True show ?thesis by (simp add: nth_cleared)
  next
    case False
    then have "nat j \<noteq> i" using assms by auto
    with il False show ?thesis by (simp add: nth_cleared)
  qed
qed

lemma cleared_cleared: "cleared (cleared bs P) Q = cleared bs (P \<union> Q)"
  by (rule nth_equalityI) (auto simp: nth_cleared)

lemma window_resetBucket_ok:
  assumes "0 < wsize w" "int (length (buckets w)) = wsize w" "0 \<le> j"
  shows "window_resetBucket w j =
           Inr (w\<lparr>buckets := (buckets w)[nat (j mod wsize w) := \<lparr>Sum = 0, Count = 0\<rparr>]\<rparr>)"
  using assms by (simp add: window_resetBucket_def go_rem_pos go_index_in Bucket_reset_eq)

lemma resetExpired_cleared:
  assumes "0 < sz" "wsize w = sz" "int (length (buckets w)) = sz" "0 \<le> off" "0 \<le> i"
  shows "resetExpired w off sz sp i =
           Inr (w\<lparr>buckets := cleared (buckets w) ((\<lambda>k. (off + k) mod sz) ` {i + 1..sp})\<rparr>)"
  using assms
proof (induction w off sz sp i rule: resetExpired.induct)
  case (1 w off sz sp i)
  show ?case
  proof (cases "i < sp")
    case False
    then show ?thesis by (subst resetExpired.simps) simp
  next
    case True
    let ?j = "(off + i + 1) mod sz"
    let ?w1 = "w\<lparr>buckets := (buckets w)[nat ?j := \<lparr>Sum = 0, Count = 0\<rparr>]\<rparr>"
    have jr: "go_rem (off + i + 1) sz = Inr ?j"
      using "1.prems" by (simp add: go_rem_pos)
    have j0: "0 \<le> ?j" "?j < sz" using "1.prems" by simp_all
    have rb: "window_resetBucket w ?j = Inr ?w1"
      using "1.prems" j0 by (simp add: window_resetBucket_ok)
    have IH: "resetExpired ?w1 off sz sp (i + 1) =
           Inr (?w1\<lparr>buckets := cleared (buckets ?w1) ((\<lambda>k. (off + k) mod sz) ` {i + 1 + 1..sp})\<rparr>)"
      using "1.IH"[OF True jr rb] "1.prems" by simp
    have split: "{i + 1..sp} = insert (i + 1) {i + 1 + 1..sp}"
      using True by auto
    have "cleared (buckets ?w1) ((\<lambda>k. (off + k) mod sz) ` {i + 1 + 1..sp})
          = cleared (buckets w) ((\<lambda>k. (off + k) mod sz) ` {i + 1..sp})"
      using j0 "1.prems" by (simp add: cleared_update split add.assoc)
    then show ?thesis
      by (subst resetExpired.simps) (simp add: True jr rb IH)
  qed
qed

lemma resetRange_cleared:
  assumes "0 < wsize w" "int (length (buckets w)) = wsize w" "0 \<le> i" "steps \<le> wsize w"
  shows "resetRange w i steps = Inr (w\<lparr>buckets := cleared (buckets w) {i..<steps}\<rparr>)"
  using assms
proof (induction w i steps rule: resetRange.induct)
  case (1 w i steps)
  show ?case
  proof (cases "i < steps")
    case False
    then show ?thesis by (subst resetRange.simps) simp
  next
    case True
    let ?w1 = "w\<lparr>buckets := (buckets w)[nat i := \<lparr>Sum = 0, Count = 0\<rparr>]\<rparr>"
    have im: "i mod wsize w = i" using True "1.prems" by simp
    have rb: "window_resetBucket w i = Inr ?w1"
      using "1.prems" by (simp add: window_resetBucket_ok im)
    have IH: "resetRange ?w1 (i + 1) steps =
           Inr (?w1\<lparr>buckets := cleared (buckets ?w1) {i + 1..<steps}\<rparr>)"
      using "1.IH"[OF True rb] "1.prems" by simp
    have split: "{i..<steps} = insert i {i + 1..<steps}"
      using True by auto
    have "cleared (buckets ?w1) {i + 1..<steps} = cleared (buckets w) {i..<steps}"
      using True "1.prems" by (simp add: cleared_update split)
    then show ?thesis
      by (subst resetRange.simps) (simp add: True rb IH)
  qed
qed

lemma resetRange_early_cleared:
  assumes "int (length (buckets w)) = sz" "0 \<le> i" "steps \<le> sz"
  shows "resetRange_early (w, off) i steps =
           Inr (w\<lparr>buckets := cleared (buckets w) {i..<steps}\<rparr>, if i < steps then steps - 1 else off)"
  using assms
proof (induction "(w, off)" i steps arbitrary: w off rule: resetRange_early.induct)
  case (1 w off i steps)
  show ?case
  proof (cases "i < steps")
    case False
    then show ?thesis by (subst resetRange_early.simps) simp
  next
    case True
    let ?w1 = "w\<lparr>buckets := (buckets w)[nat i := \<lparr>Sum = 0, Count = 0\<rparr>]\<rparr>"
    have rb: "window_resetBucket_early w i = Inr ?w1"
      using "1.prems" True by (simp add: window_resetBucket_early_def go_index_in Bucket_reset_eq)
    have IH: "resetRange_early (?w1, i) (i + 1) steps =
           Inr (?w1\<lparr>buckets := cleared (buckets ?w1) {i + 1..<steps}\<rparr>,
                if i + 1 < steps then steps - 1 else i)"
      using "1.hyps"[OF True rb] "1.prems" by simp
    have split: "{i..<steps} = insert i {i + 1..<steps}"
      using True by auto
    have "cleared (buckets ?w1) {i + 1..<steps} = cleared (buckets w) {i..<steps}"
      using True "1.prems" by (simp add: cleared_update split)
    moreover have "(if i + 1 < steps then steps - 1 else i) = steps - 1"
      using True by auto
    ultimately show ?thesis
      by (subst resetRange_early.simps) (simp add: True rb IH)
  qed
qed

lemma expired_inj:
  fixes off n sp :: int
  assumes "0 < n" "sp \<le> n"
  shows "inj_on (\<lambda>k. (off + k) mod n) {1..sp}"
proof (rule inj_onI)
  fix x y assume xy: "x \<in> {1..sp}" "y \<in> {1..sp}" "(off + x) mod n = (off + y) mod n"
  then have "n dvd (off + x) - (off + y)" by (simp only: mod_eq_dvd_iff)
  then have d: "n dvd x - y" by simp
  have lt: "\<bar>x - y\<bar> < n" using xy assms by auto
  show "x = y"
  proof (rule ccontr)
    assume "x \<noteq> y"
    then have "x - y \<noteq> 0" by simp
    from dvd_imp_le_int[OF this d] lt assms show False by simp
  qed
qed

lemma card_expired:
  assumes "0 < n" "0 \<le> sp" "sp \<le> n"
  shows "card (expired off n sp) = nat sp"
  unfolding expired_def using expired_inj[OF assms(1,3), of off]
  by (simp add: card_image)

lemma expired_range: "0 < n \<Longrightarrow> expired off n sp \<subseteq> {0..<n}"
  by (auto simp: expired_def)

lemma span_range:
  assumes "1 \<le> rw_size rw" "span_rw rw now = Inr sp"
  shows "0 \<le> sp \<and> sp \<le> rw_size rw"
  using assms by (auto simp: span_rw_def go_quot_def split: if_splits)

lemma span_floor:
  assumes "1 \<le> rw_size rw" "0 < interval rw" "lastTime rw \<le> now"
  shows "span_rw rw now = Inr (min (rw_size rw) ((now - lastTime rw) div interval rw))"
proof -
  have "0 \<le> (now - lastTime rw) div interval rw"
    using assms by (simp add: pos_imp_zdiv_nonneg_iff)
  then show ?thesis using assms by (simp add: span_rw_def go_quot_pos min_def)
qed

lemma expired_mem:
  fixes off n sp :: int
  assumes "0 \<le> off" "off < n" "1 \<le> sp" "sp \<le> n" "0 \<le> x" "x < n"
  shows "x \<in> expired off n sp \<longleftrightarrow>
           (off + 1 \<le> x \<and> x \<le> off + sp) \<or> (x + n \<le> off + sp)"
proof
  assume "x \<in> expired off n sp"
  then obtain k where k: "1 \<le> k" "k \<le> sp" "x = (off + k) mod n"
    unfolding expired_def by auto
  show "(off + 1 \<le> x \<and> x \<le> off + sp) \<or> (x + n \<le> off + sp)"
  proof (cases "off + k < n")
    case True
    then have "(off + k) mod n = off + k" using k assms(1) by simp
    with k show ?thesis by simp
  next
    case False
    then have "(off + k) mod n = (off + k - n) mod n"
      using assms(1,2) by (intro mod_pos_geq) simp_all
    also have "\<dots> = off + k - n"
      using False assms(2,4) k by (intro mod_pos_pos_trivial) simp_all
    finally show ?thesis using k by simp
  qed
next
  assume "(off + 1 \<le> x \<and> x \<le> off + sp) \<or> (x + n \<le> off + sp)"
  then show "x \<in> expired off n sp"
  proof
    assume a: "off + 1 \<le> x \<and> x \<le> off + sp"
    have "(off + (x - off)) mod n = x" using assms(5,6) by simp
    moreover have "x - off \<in> {1..sp}" using a by simp
    ultimately show ?thesis unfolding expired_def by (rule_tac image_eqI[where x = "x - off"]) simp_all
  next
    assume b: "x + n \<le> off + sp"
    have "(off + (x + n - off)) mod n = x" using assms(5,6) by simp
    moreover have "x + n - off \<in> {1..sp}" using b assms(2,5) by simp
    ultimately show ?thesis unfolding expired_def by (rule_tac image_eqI[where x = "x + n - off"]) simp_all
  qed
qed

lemma cleared_cong:
  assumes "\<And>j. j < length bs \<Longrightarrow> int j \<in> P \<longleftrightarrow> int j \<in> Q"
  shows "cleared bs P = cleared bs Q"
  by (rule nth_equalityI) (simp_all add: nth_cleared assms)

lemma span_nonzero_interval: "span_rw rw now = Inr sp \<Longrightarrow> interval rw \<noteq> 0"
  by (auto simp: span_rw_def go_quot_def split: if_splits)

lemma mod_wrap:
  fixes a n :: int
  assumes "n \<le> a" "a < 2 * n"
  shows "a mod n = a - n"
proof -
  have "a mod n = (a - n) mod n" using assms by (intro mod_pos_geq) simp_all
  also have "\<dots> = a - n" using assms by (intro mod_pos_pos_trivial) simp_all
  finally show ?thesis .
qed

lemma updateOffset_eq:
  assumes wf: "rw_wf rw" and sp: "span_rw rw now1 = Inr sp" and pos: "0 < sp"
  shows "updateOffset rw now1 now2 =
           Inr (rw\<lparr>win := (win rw)\<lparr>buckets :=
                          cleared (buckets (win rw)) (expired (offset rw) (rw_size rw) sp)\<rparr>,
                    offset := (offset rw + sp) mod rw_size rw,
                    lastTime := now2 - (now2 - lastTime rw) smod interval rw\<rparr>)"
proof -
  have n: "0 < rw_size rw" "wsize (win rw) = rw_size rw"
    "int (length (buckets (win rw))) = rw_size rw" "0 \<le> offset rw"
    using wf by (simp_all add: rw_wf_def)
  have iv: "interval rw \<noteq> 0" using sp by (rule span_nonzero_interval)
  have loop: "resetExpired (win rw) (offset rw) (rw_size rw) sp 0 =
                Inr ((win rw)\<lparr>buckets :=
                       cleared (buckets (win rw)) (expired (offset rw) (rw_size rw) sp)\<rparr>)"
    using resetExpired_cleared[OF n(1) n(2) n(3) n(4), of 0 sp]
    by (simp add: expired_def)
  have off: "go_rem (offset rw + sp) (rw_size rw) = Inr ((offset rw + sp) mod rw_size rw)"
    using n pos by (simp add: go_rem_pos)
  have lt: "go_rem (now2 - lastTime rw) (interval rw) = Inr ((now2 - lastTime rw) smod interval rw)"
    using iv by (simp add: go_rem_def)
  show ?thesis
    using pos by (simp add: updateOffset_def sp loop off lt)
qed

lemma split_positions:
  assumes wf: "rw_wf rw" and sp: "1 \<le> sp" "sp \<le> rw_size rw"
  shows "cleared (cleared (buckets (win rw))
            {offset rw + 1..<(if offset rw + 1 + sp > rw_size rw then rw_size rw
                              else offset rw + 1 + sp)})
            {0..<(if offset rw + 1 + sp > rw_size rw then offset rw + 1 + sp - rw_size rw else 0)}
         = cleared (buckets (win rw)) (expired (offset rw) (rw_size rw) sp)"
proof -
  have n: "0 < rw_size rw" "int (length (buckets (win rw))) = rw_size rw"
    "0 \<le> offset rw" "offset rw < rw_size rw"
    using wf by (simp_all add: rw_wf_def)
  show ?thesis
    unfolding cleared_cleared
  proof (rule cleared_cong)
    fix j assume "j < length (buckets (win rw))"
    then have j: "0 \<le> int j" "int j < rw_size rw" using n by simp_all
    show "int j \<in> {offset rw + 1..<(if offset rw + 1 + sp > rw_size rw then rw_size rw
                              else offset rw + 1 + sp)} \<union>
            {0..<(if offset rw + 1 + sp > rw_size rw then offset rw + 1 + sp - rw_size rw else 0)}
          \<longleftrightarrow> int j \<in> expired (offset rw) (rw_size rw) sp"
      unfolding expired_mem[OF n(3) n(4) sp j] using j by auto
  qed
qed

lemma updateOffset_split_eq:
  assumes wf: "rw_wf rw" and sp: "span_rw rw now1 = Inr sp" and pos: "0 < sp"
  shows "updateOffset_split rw now1 now2 =
           Inr (rw\<lparr>win := (win rw)\<lparr>buckets :=
                          cleared (buckets (win rw)) (expired (offset rw) (rw_size rw) sp)\<rparr>,
                    offset := (offset rw + sp) mod rw_size rw,
                    lastTime := now2\<rparr>)"
proof -
  have n: "0 < rw_size rw" "wsize (win rw) = rw_size rw"
    "int (length (buckets (win rw))) = rw_size rw" "0 \<le> offset rw" "offset rw < rw_size rw"
    using wf by (simp_all add: rw_wf_def)
  have le: "sp \<le> rw_size rw" using span_range[OF _ sp] n by simp
  let ?steps = "if offset rw + 1 + sp > rw_size rw then rw_size rw else offset rw + 1 + sp"
  let ?rem = "if offset rw + 1 + sp > rw_size rw then offset rw + 1 + sp - rw_size rw else 0"
  let ?w1 = "(win rw)\<lparr>buckets := cleared (buckets (win rw)) {offset rw + 1..<?steps}\<rparr>"
  have l1: "resetRange (win rw) (offset rw + 1) ?steps = Inr ?w1"
    using n by (intro resetRange_cleared) simp_all
  have l2: "resetRange ?w1 0 ?rem = Inr (?w1\<lparr>buckets := cleared (buckets ?w1) {0..<?rem}\<rparr>)"
    using n le by (intro resetRange_cleared) simp_all
  have off: "go_rem (offset rw + sp) (rw_size rw) = Inr ((offset rw + sp) mod rw_size rw)"
    using n pos by (simp add: go_rem_pos)
  have fin: "cleared (buckets ?w1) {0..<?rem}
             = cleared (buckets (win rw)) (expired (offset rw) (rw_size rw) sp)"
    using split_positions[OF wf _ le, of] pos by simp
  show ?thesis
    using pos l1 l2 fin off
    by (simp add: updateOffset_split_def sp Let_def)
qed

lemma updateOffset_early_eq:
  assumes wf: "rw_wf rw" and sp: "span_rw rw now1 = Inr sp" and pos: "0 < sp"
  shows "updateOffset_early rw now1 now2 =
           Inr (rw\<lparr>win := (win rw)\<lparr>buckets :=
                          cleared (buckets (win rw)) (expired (offset rw) (rw_size rw) sp)\<rparr>,
                    offset := (offset rw + sp) mod rw_size rw,
                    lastTime := now2\<rparr>)"
proof -
  have n: "0 < rw_size rw" "wsize (win rw) = rw_size rw"
    "int (length (buckets (win rw))) = rw_size rw" "0 \<le> offset rw" "offset rw < rw_size rw"
    using wf by (simp_all add: rw_wf_def)
  have le: "sp \<le> rw_size rw" using span_range[OF _ sp] n by simp
  let ?steps = "if offset rw + 1 + sp > rw_size rw then rw_size rw else offset rw + 1 + sp"
  let ?rem = "if offset rw + 1 + sp > rw_size rw then offset rw + 1 + sp - rw_size rw else 0"
  let ?w1 = "(win rw)\<lparr>buckets := cleared (buckets (win rw)) {offset rw + 1..<?steps}\<rparr>"
  let ?o1 = "if offset rw + 1 < ?steps then ?steps - 1 else offset rw"
  let ?w2 = "?w1\<lparr>buckets := cleared (buckets ?w1) {0..<?rem}\<rparr>"
  let ?o2 = "if 0 < ?rem then ?rem - 1 else ?o1"
  have l1: "resetRange_early (win rw, offset rw) (offset rw + 1) ?steps = Inr (?w1, ?o1)"
    using n by (intro resetRange_early_cleared[where sz = "rw_size rw"]) simp_all
  have l2: "resetRange_early (?w1, ?o1) 0 ?rem = Inr (?w2, ?o2)"
    using n le by (intro resetRange_early_cleared[where sz = "rw_size rw"]) simp_all
  have fin: "cleared (buckets ?w1) {0..<?rem}
             = cleared (buckets (win rw)) (expired (offset rw) (rw_size rw) sp)"
    using split_positions[OF wf _ le, of] pos by simp
  have o2: "?o2 = (offset rw + sp) mod rw_size rw"
  proof (cases "offset rw + 1 + sp > rw_size rw")
    case True
    then have "(offset rw + sp) mod rw_size rw = offset rw + sp - rw_size rw"
      using n le by (intro mod_wrap) simp_all
    with True show ?thesis by simp
  next
    case False
    then have "(offset rw + sp) mod rw_size rw = offset rw + sp"
      using n pos by (intro mod_pos_pos_trivial) simp_all
    with False pos show ?thesis by simp
  qed
  have w2: "?w2 = (win rw)\<lparr>buckets :=
                          cleared (buckets (win rw)) (expired (offset rw) (rw_size rw) sp)\<rparr>"
    using fin by simp
  have l2': "resetRange_early (?w1, ?o1) 0 ?rem =
               Inr ((win rw)\<lparr>buckets :=
                          cleared (buckets (win rw)) (expired (offset rw) (rw_size rw) sp)\<rparr>,
                    (offset rw + sp) mod rw_size rw)"
    unfolding l2 w2 o2 ..
  show ?thesis
    unfolding updateOffset_early_def Let_def sp
    by (simp only: sum.case pos if_True l1 l2' prod.case)
qed

text \<open>
  C2. Rotation inside \<open>Add\<close> (\<open>updateOffset\<close>), on a well-formed window with a positive
  interval and a clock that has not gone back: the span is
  \<open>min N ((now - lastTime) div interval)\<close>; when it is 0 the window is unchanged; when
  it is positive exactly the \<open>span\<close> positions \<open>(offset + 1) mod N, ..., (offset + span) mod N\<close>
  are reset to \<open>Sum = 0, Count = 0\<close>, every other bucket keeps its contents, and the
  offset becomes \<open>(offset + span) mod N\<close>.
\<close>

theorem rotation_resets_expired:
  assumes "rw_wf rw" "0 < interval rw" "lastTime rw \<le> now1"
  shows "let n = rw_size rw; sp = min n ((now1 - lastTime rw) div interval rw) in
           span_rw rw now1 = Inr sp \<and> 0 \<le> sp \<and>
           (sp = 0 \<longrightarrow> updateOffset rw now1 now2 = Inr rw) \<and>
           (0 < sp \<longrightarrow>
              (\<exists>rw'. updateOffset rw now1 now2 = Inr rw' \<and>
                 offset rw' = (offset rw + sp) mod n \<and>
                 rw_size rw' = n \<and>
                 length (buckets (win rw')) = length (buckets (win rw)) \<and>
                 (\<forall>j < length (buckets (win rw)).
                    buckets (win rw') ! j =
                      (if int j \<in> expired (offset rw) n sp
                       then \<lparr>Sum = 0, Count = 0\<rparr> else buckets (win rw) ! j)) \<and>
                 expired (offset rw) n sp \<subseteq> {0..<n} \<and>
                 card (expired (offset rw) n sp) = nat sp))"
proof -
  let ?n = "rw_size rw"
  let ?sp = "min ?n ((now1 - lastTime rw) div interval rw)"
  have n: "1 \<le> ?n" using assms(1) by (simp add: rw_wf_def)
  have sp: "span_rw rw now1 = Inr ?sp" using n assms(2,3) by (rule span_floor)
  have rng: "0 \<le> ?sp" "?sp \<le> ?n" using span_range[OF n sp] by simp_all
  have zero: "?sp = 0 \<longrightarrow> updateOffset rw now1 now2 = Inr rw"
    by (simp add: updateOffset_def sp)
  have pos: "0 < ?sp \<longrightarrow>
              (\<exists>rw'. updateOffset rw now1 now2 = Inr rw' \<and>
                 offset rw' = (offset rw + ?sp) mod ?n \<and>
                 rw_size rw' = ?n \<and>
                 length (buckets (win rw')) = length (buckets (win rw)) \<and>
                 (\<forall>j < length (buckets (win rw)).
                    buckets (win rw') ! j =
                      (if int j \<in> expired (offset rw) ?n ?sp
                       then \<lparr>Sum = 0, Count = 0\<rparr> else buckets (win rw) ! j)) \<and>
                 expired (offset rw) ?n ?sp \<subseteq> {0..<?n} \<and>
                 card (expired (offset rw) ?n ?sp) = nat ?sp)"
  proof
    assume p: "0 < ?sp"
    have c: "card (expired (offset rw) ?n ?sp) = nat ?sp"
      using n rng by (intro card_expired) simp_all
    have r: "expired (offset rw) ?n ?sp \<subseteq> {0..<?n}"
      using n by (intro expired_range) simp
    show "\<exists>rw'. updateOffset rw now1 now2 = Inr rw' \<and>
                 offset rw' = (offset rw + ?sp) mod ?n \<and>
                 rw_size rw' = ?n \<and>
                 length (buckets (win rw')) = length (buckets (win rw)) \<and>
                 (\<forall>j < length (buckets (win rw)).
                    buckets (win rw') ! j =
                      (if int j \<in> expired (offset rw) ?n ?sp
                       then \<lparr>Sum = 0, Count = 0\<rparr> else buckets (win rw) ! j)) \<and>
                 expired (offset rw) ?n ?sp \<subseteq> {0..<?n} \<and>
                 card (expired (offset rw) ?n ?sp) = nat ?sp"
      unfolding updateOffset_eq[OF assms(1) sp p]
      using c r by (simp add: nth_cleared)
  qed
  show ?thesis unfolding Let_def using sp rng(1) zero pos by blast
qed

theorem rotation_resets_expired_witness:
  "let rw = \<lparr>rw_size = 4,
              win = \<lparr>buckets = [\<lparr>Sum = 1, Count = 1\<rparr>, \<lparr>Sum = 0, Count = 2\<rparr>,
                                \<lparr>Sum = 3, Count = 3\<rparr>, \<lparr>Sum = 2, Count = 4\<rparr>], wsize = 4\<rparr>,
              interval = 100, offset = 3, ignoreCurrent = False, lastTime = 1000\<rparr>
   in rw_wf rw \<and> 0 < interval rw \<and> lastTime rw \<le> 1250 \<and>
      span_rw rw 1250 = Inr 2 \<and>
      (\<exists>rw'. updateOffset rw 1250 1260 = Inr rw' \<and> offset rw' = 1 \<and>
         card (expired 3 4 2) = 2)"
  using rotation_resets_expired
    [of "\<lparr>rw_size = 4,
              win = \<lparr>buckets = [\<lparr>Sum = 1, Count = 1\<rparr>, \<lparr>Sum = 0, Count = 2\<rparr>,
                                \<lparr>Sum = 3, Count = 3\<rparr>, \<lparr>Sum = 2, Count = 4\<rparr>], wsize = 4\<rparr>,
              interval = 100, offset = 3, ignoreCurrent = False, lastTime = 1000\<rparr>" 1250 1260]
  by (simp add: rw_wf_def Let_def) blast

lemma span_attained:
  assumes "1 \<le> rw_size rw" "0 < interval rw" "0 \<le> sp" "sp \<le> rw_size rw"
  shows "span_rw rw (lastTime rw + sp * interval rw) = Inr sp"
  using assms by (simp add: span_rw_def go_quot_pos)

text \<open>
  C10. For a well-formed window and a clock reading whose span \<open>sp\<close> is at least 1
  (so \<open>1 \<le> sp \<le> N\<close>), the current (modular) routine, the split-loop routine and the
  earliest split-loop routine return the same bucket array, with exactly the positions
  \<open>(offset + 1) mod N, ..., (offset + sp) mod N\<close> reset, and the same offset
  \<open>(offset + sp) mod N\<close>; only the stored \<open>lastTime\<close> differs.
\<close>

theorem rotation_routines_agree:
  assumes "rw_wf rw" "span_rw rw now1 = Inr sp" "1 \<le> sp"
  shows "\<exists>w'. updateOffset rw now1 now2 =
                 Inr (rw\<lparr>win := w', offset := (offset rw + sp) mod rw_size rw,
                        lastTime := now2 - (now2 - lastTime rw) smod interval rw\<rparr>) \<and>
              updateOffset_split rw now1 now2 =
                 Inr (rw\<lparr>win := w', offset := (offset rw + sp) mod rw_size rw,
                        lastTime := now2\<rparr>) \<and>
              updateOffset_early rw now1 now2 =
                 Inr (rw\<lparr>win := w', offset := (offset rw + sp) mod rw_size rw,
                        lastTime := now2\<rparr>) \<and>
              wsize w' = wsize (win rw) \<and>
              length (buckets w') = length (buckets (win rw)) \<and>
              (\<forall>j < length (buckets (win rw)).
                 buckets w' ! j =
                   (if int j \<in> expired (offset rw) (rw_size rw) sp
                    then \<lparr>Sum = 0, Count = 0\<rparr> else buckets (win rw) ! j)) \<and>
              sp \<le> rw_size rw \<and>
              card (expired (offset rw) (rw_size rw) sp) = nat sp"
proof -
  have pos: "0 < sp" using assms(3) by simp
  have n: "1 \<le> rw_size rw" using assms(1) by (simp add: rw_wf_def)
  have le: "sp \<le> rw_size rw" using span_range[OF n assms(2)] by simp
  have c: "card (expired (offset rw) (rw_size rw) sp) = nat sp"
    using n le pos by (intro card_expired) simp_all
  let ?w = "(win rw)\<lparr>buckets := cleared (buckets (win rw)) (expired (offset rw) (rw_size rw) sp)\<rparr>"
  have "updateOffset rw now1 now2 =
          Inr (rw\<lparr>win := ?w, offset := (offset rw + sp) mod rw_size rw,
                 lastTime := now2 - (now2 - lastTime rw) smod interval rw\<rparr>)"
    by (rule updateOffset_eq[OF assms(1,2) pos])
  moreover have "updateOffset_split rw now1 now2 =
          Inr (rw\<lparr>win := ?w, offset := (offset rw + sp) mod rw_size rw, lastTime := now2\<rparr>)"
    by (rule updateOffset_split_eq[OF assms(1,2) pos])
  moreover have "updateOffset_early rw now1 now2 =
          Inr (rw\<lparr>win := ?w, offset := (offset rw + sp) mod rw_size rw, lastTime := now2\<rparr>)"
    by (rule updateOffset_early_eq[OF assms(1,2) pos])
  moreover have "wsize ?w = wsize (win rw)" "length (buckets ?w) = length (buckets (win rw))"
    by simp_all
  moreover have "\<forall>j < length (buckets (win rw)).
                 buckets ?w ! j =
                   (if int j \<in> expired (offset rw) (rw_size rw) sp
                    then \<lparr>Sum = 0, Count = 0\<rparr> else buckets (win rw) ! j)"
    by (simp add: nth_cleared)
  ultimately show ?thesis using le c by blast
qed

theorem rotation_routines_agree_witness:
  "let rw = \<lparr>rw_size = 3,
              win = \<lparr>buckets = [\<lparr>Sum = 1, Count = 1\<rparr>, \<lparr>Sum = 0, Count = 2\<rparr>,
                                \<lparr>Sum = 3, Count = 3\<rparr>], wsize = 3\<rparr>,
              interval = 10, offset = 2, ignoreCurrent = False, lastTime = 500\<rparr>
   in rw_wf rw \<and> span_rw rw 525 = Inr 2 \<and>
      (\<exists>w'. updateOffset rw 525 527 = Inr (rw\<lparr>win := w', offset := 1, lastTime := 520\<rparr>) \<and>
            updateOffset_split rw 525 527 = Inr (rw\<lparr>win := w', offset := 1, lastTime := 527\<rparr>) \<and>
            updateOffset_early rw 525 527 = Inr (rw\<lparr>win := w', offset := 1, lastTime := 527\<rparr>))"
proof -
  let ?rw = "\<lparr>rw_size = 3,
              win = \<lparr>buckets = [\<lparr>Sum = 1, Count = 1\<rparr>, \<lparr>Sum = 0, Count = 2\<rparr>,
                                \<lparr>Sum = 3, Count = 3\<rparr>], wsize = 3\<rparr>,
              interval = 10, offset = 2, ignoreCurrent = False, lastTime = 500\<rparr>"
  have wf: "rw_wf ?rw" by (simp add: rw_wf_def)
  have sp: "span_rw ?rw 525 = Inr 2" by (simp add: span_rw_def go_quot_def)
  from rotation_routines_agree[OF wf sp, of 527]
  show ?thesis unfolding Let_def using wf sp by simp blast
qed

subsection \<open>Alignment of \<open>lastTime\<close>\<close>

lemma window_add_ok:
  assumes "0 < wsize w" "int (length (buckets w)) = wsize w" "0 \<le> off"
  shows "window_add w off v =
           Inr (w\<lparr>buckets := (buckets w)[nat (off mod wsize w) :=
                                 Bucket_add (buckets w ! nat (off mod wsize w)) v]\<rparr>)"
  using assms by (simp add: window_add_def go_rem_pos go_index_in)

lemma NewRollingWindow_wf: "NewRollingWindow sz iv ign t0 = Inr rw \<Longrightarrow> rw_wf rw"
  by (auto simp: NewRollingWindow_def rw_wf_def newWindow_def split: if_splits)

lemma updateOffset_wf:
  assumes "rw_wf rw" "updateOffset rw now1 now2 = Inr rw'"
  shows "rw_wf rw'"
proof -
  from assms(2) obtain sp where sp: "span_rw rw now1 = Inr sp"
    by (cases "span_rw rw now1") (simp_all add: updateOffset_def)
  show ?thesis
  proof (cases "0 < sp")
    case True
    have n: "0 < rw_size rw" using assms(1) by (simp add: rw_wf_def)
    from updateOffset_eq[OF assms(1) sp True, of now2] assms(2)
    have "rw' = rw\<lparr>win := (win rw)\<lparr>buckets :=
                          cleared (buckets (win rw)) (expired (offset rw) (rw_size rw) sp)\<rparr>,
                    offset := (offset rw + sp) mod rw_size rw,
                    lastTime := now2 - (now2 - lastTime rw) smod interval rw\<rparr>"
      by simp
    then show ?thesis using assms(1) n by (simp add: rw_wf_def)
  next
    case False
    then have "rw' = rw" using assms(2) sp by (simp add: updateOffset_def)
    then show ?thesis using assms(1) by simp
  qed
qed

lemma Add_wf:
  assumes "rw_wf rw" "Add rw now1 now2 v = Inr rw'"
  shows "rw_wf rw'"
proof -
  from assms(2) obtain rw1 where u: "updateOffset rw now1 now2 = Inr rw1"
    by (cases "updateOffset rw now1 now2") (simp_all add: Add_def)
  have wf1: "rw_wf rw1" using assms(1) u by (rule updateOffset_wf)
  then have n: "0 < wsize (win rw1)" "int (length (buckets (win rw1))) = wsize (win rw1)"
    "0 \<le> offset rw1"
    by (simp_all add: rw_wf_def)
  from assms(2) u window_add_ok[OF n, of v]
  have "rw' = rw1\<lparr>win := (win rw1)\<lparr>buckets := (buckets (win rw1))[nat (offset rw1 mod wsize (win rw1)) :=
                                 Bucket_add (buckets (win rw1) ! nat (offset rw1 mod wsize (win rw1))) v]\<rparr>\<rparr>"
    by (simp add: Add_def)
  then show ?thesis using wf1 by (simp add: rw_wf_def)
qed

lemma reachable_wf: "reachable t0 rw \<Longrightarrow> rw_wf rw"
  by (induction rule: reachable.induct) (auto intro: NewRollingWindow_wf Add_wf)

lemma Add_lastTime:
  assumes "Add rw now1 now2 v = Inr rw'"
  shows "interval rw' = interval rw \<and>
         (\<exists>sp. span_rw rw now1 = Inr sp \<and>
            lastTime rw' = (if sp \<le> 0 then lastTime rw
                            else now2 - (now2 - lastTime rw) smod interval rw))"
proof -
  from assms obtain rw1 where u: "updateOffset rw now1 now2 = Inr rw1"
    by (cases "updateOffset rw now1 now2") (simp_all add: Add_def)
  from assms u have a: "interval rw' = interval rw1" "lastTime rw' = lastTime rw1"
    by (auto simp: Add_def split: sum.splits)
  from u obtain sp where sp: "span_rw rw now1 = Inr sp"
    by (cases "span_rw rw now1") (simp_all add: updateOffset_def)
  from u sp have "interval rw1 = interval rw \<and>
      lastTime rw1 = (if sp \<le> 0 then lastTime rw
                      else now2 - (now2 - lastTime rw) smod interval rw)"
    by (auto simp: updateOffset_def go_rem_def split: sum.splits if_splits)
  with a sp show ?thesis by simp
qed

lemma aligned_step:
  fixes iv :: int
  assumes "iv dvd l - t0"
  shows "iv dvd (now - (now - l) smod iv) - t0"
proof -
  have "now - l - (now - l) smod iv = iv * ((now - l) sdiv iv)"
    by (rule minus_smod_eq_mult_sdiv)
  then have eq: "(now - (now - l) smod iv) - t0 = iv * ((now - l) sdiv iv) + (l - t0)"
    by simp
  show ?thesis unfolding eq using assms by (intro dvd_add dvd_triv_left)
qed

lemma reachable_aligned: "reachable t0 rw \<Longrightarrow> interval rw dvd lastTime rw - t0"
proof (induction rule: reachable.induct)
  case (reachable_new sz iv ign rw)
  then show ?case by (auto simp: NewRollingWindow_def split: if_splits)
next
  case (reachable_add rw now1 now2 v rw')
  from Add_lastTime[OF reachable_add(2)] reachable_add(3)
  show ?case by (auto simp: aligned_step)
qed

lemma smod_eq_mod_nonneg:
  fixes a b :: int
  shows "0 \<le> a \<Longrightarrow> 0 < b \<Longrightarrow> a smod b = a mod b"
  by (simp add: signed_modulo_int_def sgn_if)

text \<open>
  C3, for the routine of core/collection/rollingwindow.go (the one that aligns). In a
  window built by \<open>NewRollingWindow\<close> at clock reading \<open>t0\<close> and any sequence of \<open>Add\<close>
  calls of this routine, \<open>lastTime\<close> is congruent to \<open>t0\<close> modulo \<open>interval\<close>, before and
  after each \<open>Add\<close>. An \<open>Add\<close> that rotates (span not 0) stores
  \<open>now - ((now - lastTime) % interval)\<close>, where \<open>now\<close> is the reading of \<open>timex.Now()\<close>
  in \<open>updateOffset\<close>; Go's \<open>%\<close> is \<open>mod\<close> here when the interval is positive and the clock
  has not gone back. An \<open>Add\<close> that does not rotate leaves \<open>lastTime\<close> as it is.
\<close>

theorem lastTime_aligned:
  assumes "reachable t0 rw" "Add rw now1 now2 v = Inr rw'"
  shows "interval rw dvd lastTime rw - t0 \<and>
         interval rw' = interval rw \<and>
         interval rw' dvd lastTime rw' - t0 \<and>
         (span_rw rw now1 = Inr 0 \<longrightarrow> lastTime rw' = lastTime rw) \<and>
         (span_rw rw now1 \<noteq> Inr 0 \<longrightarrow>
            lastTime rw' = now2 - (now2 - lastTime rw) smod interval rw) \<and>
         (0 < interval rw \<and> lastTime rw \<le> now2 \<longrightarrow>
            (now2 - lastTime rw) smod interval rw = (now2 - lastTime rw) mod interval rw)"
proof -
  have r': "reachable t0 rw'" using assms by (rule reachable_add)
  have a: "interval rw dvd lastTime rw - t0" using assms(1) by (rule reachable_aligned)
  have a': "interval rw' dvd lastTime rw' - t0" using r' by (rule reachable_aligned)
  have wf: "rw_wf rw" using assms(1) by (rule reachable_wf)
  from Add_lastTime[OF assms(2)] obtain sp where
    iv: "interval rw' = interval rw" and sp: "span_rw rw now1 = Inr sp" and
    lt: "lastTime rw' = (if sp \<le> 0 then lastTime rw
                            else now2 - (now2 - lastTime rw) smod interval rw)"
    by blast
  have "0 \<le> sp" using span_range[OF _ sp] wf by (simp add: rw_wf_def)
  with sp lt have
    "span_rw rw now1 = Inr 0 \<longrightarrow> lastTime rw' = lastTime rw"
    "span_rw rw now1 \<noteq> Inr 0 \<longrightarrow> lastTime rw' = now2 - (now2 - lastTime rw) smod interval rw"
    by auto
  moreover have "0 < interval rw \<and> lastTime rw \<le> now2 \<longrightarrow>
            (now2 - lastTime rw) smod interval rw = (now2 - lastTime rw) mod interval rw"
    by (simp add: smod_eq_mod_nonneg)
  ultimately show ?thesis using a a' iv by blast
qed

theorem lastTime_aligned_witness:
  "reachable 1000 \<lparr>rw_size = 2, win = newWindow 2, interval = 100, offset = 0,
                     ignoreCurrent = False, lastTime = 1000\<rparr> \<and>
   Add \<lparr>rw_size = 2, win = newWindow 2, interval = 100, offset = 0,
         ignoreCurrent = False, lastTime = 1000\<rparr> 1130 1131 1 =
     Inr \<lparr>rw_size = 2,
           win = \<lparr>buckets = [\<lparr>Sum = 0, Count = 0\<rparr>, \<lparr>Sum = 1, Count = 1\<rparr>], wsize = 2\<rparr>,
           interval = 100, offset = 1, ignoreCurrent = False, lastTime = 1100\<rparr> \<and>
   (100::int) dvd 1100 - 1000"
proof -
  let ?rw = "\<lparr>rw_size = 2, win = newWindow 2, interval = 100, offset = 0,
                     ignoreCurrent = False, lastTime = 1000\<rparr>"
  let ?rw' = "\<lparr>rw_size = 2,
           win = \<lparr>buckets = [\<lparr>Sum = 0, Count = 0\<rparr>, \<lparr>Sum = 1, Count = 1\<rparr>], wsize = 2\<rparr>,
           interval = 100, offset = 1, ignoreCurrent = False, lastTime = 1100\<rparr>"
  have r: "reachable 1000 ?rw"
    by (rule reachable_new[of 2 100 False]) (simp add: NewRollingWindow_def)
  have sp: "span_rw ?rw 1130 = Inr 1" by (simp add: span_rw_def go_quot_def)
  have a: "Add ?rw 1130 1131 1 = Inr ?rw'"
    by (simp add: Add_def updateOffset_def span_rw_def go_quot_def resetExpired.simps
          signed_modulo_int_def signed_divide_int_def go_rem_def go_index_def
          window_resetBucket_def window_add_def newWindow_def Bucket_reset_def Bucket_add_def
          numeral_2_eq_2)
  from lastTime_aligned[OF r a] r a show ?thesis by simp
qed

text \<open>
  C3 as stated fails for the split-loop routine of src/unnamed/part_001, which the claim
  also cites: its \<open>updateOffset\<close> stores the raw reading of \<open>timex.Now()\<close>. In a window
  built at reading 1000 with interval 100, an \<open>Add\<close> whose rotation reads the clock at
  1131 leaves \<open>lastTime = 1131\<close>, which is neither \<open>1131 - (1131 - 1000) % 100 = 1100\<close> nor
  congruent to 1000 modulo 100.
\<close>

theorem Add_split_unaligned_counterexample:
  "NewRollingWindow 2 100 False 1000 =
     Inr \<lparr>rw_size = 2, win = newWindow 2, interval = 100, offset = 0,
          ignoreCurrent = False, lastTime = 1000\<rparr> \<and>
   Add_split \<lparr>rw_size = 2, win = newWindow 2, interval = 100, offset = 0,
              ignoreCurrent = False, lastTime = 1000\<rparr> 1130 1131 1 =
     Inr \<lparr>rw_size = 2,
          win = \<lparr>buckets = [\<lparr>Sum = 0, Count = 0\<rparr>, \<lparr>Sum = 1, Count = 1\<rparr>], wsize = 2\<rparr>,
          interval = 100, offset = 1, ignoreCurrent = False, lastTime = 1131\<rparr> \<and>
   (1131::int) \<noteq> 1131 - (1131 - 1000) smod 100 \<and>
   \<not> (100::int) dvd 1131 - 1000"
proof -
  have n: "NewRollingWindow 2 100 False 1000 =
     Inr \<lparr>rw_size = 2, win = newWindow 2, interval = 100, offset = 0,
          ignoreCurrent = False, lastTime = 1000\<rparr>"
    by (simp add: NewRollingWindow_def)
  have a: "Add_split \<lparr>rw_size = 2, win = newWindow 2, interval = 100, offset = 0,
              ignoreCurrent = False, lastTime = 1000\<rparr> 1130 1131 1 =
     Inr \<lparr>rw_size = 2,
          win = \<lparr>buckets = [\<lparr>Sum = 0, Count = 0\<rparr>, \<lparr>Sum = 1, Count = 1\<rparr>], wsize = 2\<rparr>,
          interval = 100, offset = 1, ignoreCurrent = False, lastTime = 1131\<rparr>"
    by (simp add: Add_split_def updateOffset_split_def span_rw_def go_quot_def resetRange.simps
          signed_modulo_int_def signed_divide_int_def go_rem_def go_index_def Let_def
          window_resetBucket_def window_add_def newWindow_def Bucket_reset_def Bucket_add_def
          numeral_2_eq_2)
  have s: "(1131::int) \<noteq> 1131 - (1131 - 1000) smod 100"
    by (simp add: signed_modulo_int_def signed_divide_int_def)
  have d: "\<not> (100::int) dvd 1131 - 1000" by simp
  show ?thesis using n a s d by blast
qed

subsection \<open>Reduce\<close>

lemma window_reduce_from_fold:
  assumes "0 < wsize w" "int (length (buckets w)) = wsize w" "0 \<le> start" "0 \<le> i"
  shows "window_reduce_from w start cnt fn i acc =
           Inr (fold fn (map (\<lambda>k. buckets w ! nat ((start + k) mod wsize w)) [i..cnt - 1]) acc)"
  using assms
proof (induction w start cnt fn i acc rule: window_reduce_from.induct)
  case (1 w start cnt fn i acc)
  show ?case
  proof (cases "i < cnt")
    case False
    then show ?thesis by (subst window_reduce_from.simps) simp
  next
    case True
    let ?j = "(start + i) mod wsize w"
    have jr: "go_rem (start + i) (wsize w) = Inr ?j"
      using "1.prems" by (simp add: go_rem_pos)
    have j0: "0 \<le> ?j" "?j < wsize w" using "1.prems" by simp_all
    have ix: "go_index (buckets w) ?j = Inr (buckets w ! nat ?j)"
      using j0 "1.prems" by (simp add: go_index_in)
    have IH: "window_reduce_from w start cnt fn (i + 1) (fn (buckets w ! nat ?j) acc) =
           Inr (fold fn (map (\<lambda>k. buckets w ! nat ((start + k) mod wsize w)) [i + 1..cnt - 1])
                  (fn (buckets w ! nat ?j) acc))"
      using "1.IH"[OF True jr ix] "1.prems" by simp
    have up: "[i..cnt - 1] = i # [i + 1..cnt - 1]"
      using True by (intro upto_rec1) simp
    show ?thesis
      by (subst window_reduce_from.simps) (simp add: True jr ix IH up)
  qed
qed

lemma Reduce_fold:
  assumes "rw_wf rw" "span_rw rw now = Inr sp"
  shows "Reduce rw now fn acc =
           Inr (fold fn
                  (map (\<lambda>k. buckets (win rw) !
                          nat (((offset rw + sp + 1) mod rw_size rw + k) mod rw_size rw))
                     [0..(if sp = 0 \<and> ignoreCurrent rw then rw_size rw - 1 else rw_size rw - sp) - 1])
                  acc)"
proof -
  let ?n = "rw_size rw"
  let ?diff = "if sp = 0 \<and> ignoreCurrent rw then ?n - 1 else ?n - sp"
  let ?start = "(offset rw + sp + 1) mod ?n"
  let ?visited = "map (\<lambda>k. buckets (win rw) ! nat ((?start + k) mod ?n)) [0..?diff - 1]"
  have n: "0 < ?n" "wsize (win rw) = ?n" "int (length (buckets (win rw))) = ?n"
    "0 \<le> offset rw"
    using assms(1) by (simp_all add: rw_wf_def)
  have rng: "0 \<le> sp" "sp \<le> ?n" using span_range[OF _ assms(2)] n by simp_all
  have st: "0 \<le> ?start" "?start < ?n" using n by simp_all
  have gr: "go_rem (offset rw + sp + 1) ?n = Inr ?start"
    using n rng by (simp add: go_rem_pos)
  show "Reduce rw now fn acc = Inr (fold fn ?visited acc)"
  proof (cases "0 < ?diff")
    case True
    have "window_reduce (win rw) ?start ?diff fn acc = Inr (fold fn ?visited acc)"
      unfolding window_reduce_def
      using window_reduce_from_fold[of "win rw" ?start 0 ?diff fn acc] n st by simp
    then show ?thesis using True by (simp add: Reduce_def assms(2) gr Let_def)
  next
    case False
    then have "[0..?diff - 1] = []" by simp
    then have "?visited = []" by simp
    then show ?thesis using False by (simp add: Reduce_def assms(2) Let_def)
  qed
qed

text \<open>
  C6. \<open>Reduce\<close> on a well-formed window, with \<open>sp\<close> the span read from the clock: it
  reports \<open>diff\<close> buckets, where \<open>diff = N - 1\<close> if \<open>sp = 0\<close> and the window ignores the
  current bucket, and \<open>diff = N - sp\<close> otherwise (none when \<open>sp = N\<close>). The callback is
  applied, in this order, to the buckets at positions \<open>(start + k) mod N\<close> for
  \<open>k = 0, ..., diff - 1\<close>, with \<open>start = (offset + sp + 1) mod N\<close>.
\<close>

theorem Reduce_reports:
  assumes "rw_wf rw" "span_rw rw now = Inr sp"
  shows "let n = rw_size rw;
             diff = (if sp = 0 \<and> ignoreCurrent rw then n - 1 else n - sp);
             start = (offset rw + sp + 1) mod n;
             visited = map (\<lambda>k. buckets (win rw) ! nat ((start + k) mod n)) [0..diff - 1]
         in Reduce rw now fn acc = Inr (fold fn visited acc) \<and>
            int (length visited) = diff \<and>
            (sp = n \<longrightarrow> visited = []) \<and>
            0 \<le> start \<and> start < n \<and>
            (\<forall>k. 0 \<le> k \<and> k < diff \<longrightarrow>
               visited ! nat k = buckets (win rw) ! nat ((offset rw + sp + 1 + k) mod n))"
proof -
  let ?n = "rw_size rw"
  let ?diff = "if sp = 0 \<and> ignoreCurrent rw then ?n - 1 else ?n - sp"
  let ?start = "(offset rw + sp + 1) mod ?n"
  let ?visited = "map (\<lambda>k. buckets (win rw) ! nat ((?start + k) mod ?n)) [0..?diff - 1]"
  have n: "0 < ?n" "wsize (win rw) = ?n" "int (length (buckets (win rw))) = ?n"
    "0 \<le> offset rw"
    using assms(1) by (simp_all add: rw_wf_def)
  have rng: "0 \<le> sp" "sp \<le> ?n" using span_range[OF _ assms(2)] n by simp_all
  have d0: "0 \<le> ?diff" using rng n by simp
  have st: "0 \<le> ?start" "?start < ?n" using n by simp_all
  have len: "int (length ?visited) = ?diff" using d0 by simp
  have gr: "go_rem (offset rw + sp + 1) ?n = Inr ?start"
    using n rng by (simp add: go_rem_pos)
  have red: "Reduce rw now fn acc = Inr (fold fn ?visited acc)"
    by (rule Reduce_fold[OF assms])
  have none: "sp = ?n \<longrightarrow> ?visited = []" using n by auto
  have pos: "\<forall>k. 0 \<le> k \<and> k < ?diff \<longrightarrow>
               ?visited ! nat k = buckets (win rw) ! nat ((offset rw + sp + 1 + k) mod ?n)"
  proof (intro allI impI)
    fix k assume k: "0 \<le> k \<and> k < ?diff"
    then have "nat k < length [0..?diff - 1]" by simp
    then have "?visited ! nat k = buckets (win rw) ! nat ((?start + [0..?diff - 1] ! nat k) mod ?n)"
      by (simp only: nth_map)
    also have "[0..?diff - 1] ! nat k = k" using k by (simp add: nth_upto)
    also have "(?start + k) mod ?n = (offset rw + sp + 1 + k) mod ?n"
      by (simp add: mod_add_left_eq)
    finally show "?visited ! nat k = buckets (win rw) ! nat ((offset rw + sp + 1 + k) mod ?n)" .
  qed
  show ?thesis unfolding Let_def using red len none st pos by blast
qed

theorem Reduce_reports_witness:
  "let rw = \<lparr>rw_size = 3,
              win = \<lparr>buckets = [\<lparr>Sum = 1, Count = 1\<rparr>, \<lparr>Sum = 0, Count = 2\<rparr>,
                                \<lparr>Sum = 3, Count = 3\<rparr>], wsize = 3\<rparr>,
              interval = 10, offset = 2, ignoreCurrent = True, lastTime = 500\<rparr>
   in rw_wf rw \<and> span_rw rw 505 = Inr 0 \<and>
      Reduce rw 505 (\<lambda>b acc. acc @ [b]) [] = Inr [\<lparr>Sum = 1, Count = 1\<rparr>, \<lparr>Sum = 0, Count = 2\<rparr>]"
proof -
  let ?rw = "\<lparr>rw_size = 3,
              win = \<lparr>buckets = [\<lparr>Sum = 1, Count = 1\<rparr>, \<lparr>Sum = 0, Count = 2\<rparr>,
                                \<lparr>Sum = 3, Count = 3\<rparr>], wsize = 3\<rparr>,
              interval = 10, offset = 2, ignoreCurrent = True, lastTime = 500\<rparr>"
  have wf: "rw_wf ?rw" by (simp add: rw_wf_def)
  have sp: "span_rw ?rw 505 = Inr 0" by (simp add: span_rw_def go_quot_def)
  have up: "[0..1::int] = [0, 1]" by (simp add: upto.simps)
  from Reduce_reports[OF wf sp, of "\<lambda>b acc. acc @ [b]" "[]"]
  show ?thesis unfolding Let_def using wf sp by (simp add: up)
qed

section \<open>Proofs: adaptive throttle\<close>

lemma f64_round_numeral [simp]:
  "(numeral n :: int) < 2 ^ 53 \<Longrightarrow> f64_round (numeral n) = numeral n"
  using f64_round_int[of "numeral n"] by simp

lemma f64_round_neg_numeral [simp]:
  "(numeral n :: int) < 2 ^ 53 \<Longrightarrow> f64_round (- numeral n) = - numeral n"
  by (simp add: f64_round_minus)

lemma drop_bounds:
  fixes accepts tot :: int
  assumes "0 \<le> accepts" "0 \<le> tot"
  shows "(real_of_int tot - 5 - 3 / 2 * real_of_int accepts) / (real_of_int tot + 1) < 1"
proof -
  have "real_of_int tot - 5 - 3 / 2 * real_of_int accepts < real_of_int tot + 1"
    using assms by simp
  moreover have "0 < real_of_int tot + 1" using assms by simp
  ultimately show ?thesis by (simp only: divide_less_eq_1_pos)
qed

lemma drop_small_exact:
  fixes accepts tot :: int
  assumes "0 \<le> accepts" "0 \<le> tot" "tot \<le> 2 ^ 50" "accepts \<le> 2 ^ 50"
  shows "f64_round (f64_round (real_of_int (tot - 5)) - f64_round (3 / 2 * f64_round (real_of_int accepts)))
           / f64_round (real_of_int (tot + 1))
         = (real_of_int tot - 5 - 3 / 2 * real_of_int accepts) / (real_of_int tot + 1)"
proof -
  have a: "f64_round (real_of_int (tot - 5)) = real_of_int (tot - 5)"
    using assms by (intro f64_round_int) simp
  have b: "f64_round (real_of_int accepts) = real_of_int accepts"
    using assms by (intro f64_round_int) simp
  have "f64_round (real_of_int (3 * accepts) / 2) = real_of_int (3 * accepts) / 2"
    using assms by (intro f64_round_half) simp
  then have c: "f64_round (3 / 2 * real_of_int accepts) = 3 / 2 * real_of_int accepts"
    by simp
  have "f64_round (real_of_int (2 * (tot - 5) - 3 * accepts) / 2)
          = real_of_int (2 * (tot - 5) - 3 * accepts) / 2"
    using assms by (intro f64_round_half) simp
  moreover have "real_of_int (2 * (tot - 5) - 3 * accepts) / 2
          = real_of_int (tot - 5) - 3 / 2 * real_of_int accepts"
    by simp
  ultimately have d: "f64_round (real_of_int (tot - 5) - 3 / 2 * real_of_int accepts)
          = real_of_int (tot - 5) - 3 / 2 * real_of_int accepts"
    by (simp only:)
  have e: "f64_round (real_of_int (tot + 1)) = real_of_int (tot + 1)"
    using assms by (intro f64_round_int) simp
  show ?thesis unfolding a b c d e by simp
qed

lemma drop_small_le_one:
  fixes accepts tot :: int
  assumes "0 \<le> accepts" "0 \<le> tot" "tot \<le> 2 ^ 50"
  shows "max 0 (f64_round ((real_of_int tot - 5 - 3 / 2 * real_of_int accepts) / (real_of_int tot + 1))) \<le> 1"
proof -
  let ?q = "(real_of_int tot - 5 - 3 / 2 * real_of_int accepts) / (real_of_int tot + 1)"
  show ?thesis
  proof (cases "0 < ?q")
    case False
    then have "f64_round ?q \<le> 0" by (intro f64_round_nonpos) simp
    then show ?thesis by simp
  next
    case True
    have den: "0 < real_of_int tot + 1" using assms(2) by simp
    have lt: "?q < 1" using assms(1,2) by (rule drop_bounds)
    have num: "0 < real_of_int tot - 5 - 3 / 2 * real_of_int accepts"
      using True den by (simp add: zero_less_divide_iff)
    then have "0 < real_of_int (2 * (tot - 5) - 3 * accepts)" by simp
    then have "0 < 2 * (tot - 5) - 3 * accepts" by (simp only: of_int_0_less_iff)
    then have "1 \<le> 2 * (tot - 5) - 3 * accepts" by simp
    then have "(1::real) \<le> real_of_int (2 * (tot - 5) - 3 * accepts)" by (simp only: of_int_1_le_iff)
    then have n1: "1 / 2 \<le> real_of_int tot - 5 - 3 / 2 * real_of_int accepts" by simp
    have "real_of_int tot \<le> real_of_int (2 ^ 50)" using assms(3) by (simp only: of_int_le_iff)
    then have d1: "real_of_int tot + 1 \<le> 2 ^ 51" by simp
    have "(1 / 2) / 2 ^ 51 \<le> (real_of_int tot - 5 - 3 / 2 * real_of_int accepts) / (real_of_int tot + 1)"
      using n1 d1 den by (intro frac_le) simp_all
    moreover have "(2::real) powi (- 1000) \<le> (1 / 2) / 2 ^ 51"
    proof -
      have "(2::real) powi (- 1000) \<le> 2 powi (- 52)" by (intro power_int_increasing) simp_all
      then show ?thesis by simp
    qed
    ultimately have lo: "2 powi (- 1000) \<le> ?q" by linarith
    have "f64_round ?q \<le> 1" using True lt lo by (rule f64_round_le_one)
    then show ?thesis by simp
  qed
qed

lemma f64_round_four_sevenths:
  "f64_round (4 / 7) = 5146971002709138 / 9007199254740992"
proof -
  have "f64_round (4 / 7) = sgn (4 / 7 :: real) *
          (of_int (round_half_even (\<bar>4 / 7\<bar> / 2 powi (- 1 - 52))) * 2 powi (- 1 - 52))"
    by (rule f64_round_binade) (simp_all add: power_int_minus)
  also have "\<dots> = 5146971002709138 / 9007199254740992"
    by (simp add: round_half_even_def power_int_minus)
  finally show ?thesis .
qed

lemma f64_round_third:
  "f64_round (1 / 3) = 6004799503160661 / 18014398509481984"
proof -
  have "f64_round (1 / 3) = sgn (1 / 3 :: real) *
          (of_int (round_half_even (\<bar>1 / 3\<bar> / 2 powi (- 2 - 52))) * 2 powi (- 2 - 52))"
    by (rule f64_round_binade) (simp_all add: power_int_minus)
  also have "\<dots> = 6004799503160661 / 18014398509481984"
    by (simp add: round_half_even_def power_int_minus)
  finally show ?thesis .
qed


text \<open>
  C1, as the code has it. For a window reading \<open>(accepts, total)\<close> with both
  non-negative and \<open>k = 1.5\<close>, \<open>accept\<close> computes
  \<open>drop = max 0 ((total - 5 - 1.5 * accepts) / (total + 1))\<close> in \<open>float64\<close> arithmetic,
  every operation rounded to the nearest \<open>float64\<close>; for readings up to \<open>2^50\<close> only
  the division rounds, so that \<open>drop\<close> is the \<open>float64\<close> nearest to the exact ratio, and
  it is at most 1. If \<open>drop \<le> 0\<close>, \<open>accept\<close> returns \<open>nil\<close> and the probability source
  is left untouched. Otherwise it draws one value \<open>x\<close> from the source and returns
  \<open>ErrServiceUnavailable\<close> exactly when \<open>x\<close> is below the rounded \<open>drop\<close>, \<open>nil\<close>
  otherwise.
\<close>

theorem accept_drop_ratio:
  assumes "history b now = Inr (accepts, tot)" "0 \<le> accepts" "0 \<le> tot" "gb_k b = 3 / 2"
  shows "let drop = max 0 (f64_round
                             (f64_round (f64_round (real_of_int (tot - 5))
                                         - f64_round (3 / 2 * f64_round (real_of_int accepts)))
                              / f64_round (real_of_int (tot + 1))))
         in 0 \<le> drop \<and>
            (drop \<le> 0 \<longrightarrow> accept b now = Inr (None, b)) \<and>
            (0 < drop \<longrightarrow>
               accept b now =
                 Inr (if proba_r (gb_proba b) (drawn (gb_proba b)) < drop
                      then Some ErrServiceUnavailable else None,
                      b\<lparr>gb_proba := (gb_proba b)\<lparr>drawn := drawn (gb_proba b) + 1\<rparr>\<rparr>)) \<and>
            (tot \<le> 2 ^ 50 \<and> accepts \<le> 2 ^ 50 \<longrightarrow>
               drop = max 0 (f64_round ((real_of_int tot - 5 - 3 / 2 * real_of_int accepts)
                                        / (real_of_int tot + 1))) \<and>
               drop \<le> 1)"
proof -
  define d where
    "d = max 0 (f64_round
                  (f64_round (f64_round (real_of_int (tot - 5))
                              - f64_round (3 / 2 * f64_round (real_of_int accepts)))
                   / f64_round (real_of_int (tot + 1))))"
  have acc: "accept b now =
          (if d \<le> 0 then Inr (None, b)
           else Inr (if proba_r (gb_proba b) (drawn (gb_proba b)) < d
                      then Some ErrServiceUnavailable else None,
                      b\<lparr>gb_proba := (gb_proba b)\<lparr>drawn := drawn (gb_proba b) + 1\<rparr>\<rparr>))"
    unfolding accept_def assms(1) d_def assms(4) protection_def
    by (simp add: Let_def TrueOnProba_def)
  have z: "d \<le> 0 \<longrightarrow> accept b now = Inr (None, b)"
    using acc by simp
  have p: "0 < d \<longrightarrow>
               accept b now =
                 Inr (if proba_r (gb_proba b) (drawn (gb_proba b)) < d
                      then Some ErrServiceUnavailable else None,
                      b\<lparr>gb_proba := (gb_proba b)\<lparr>drawn := drawn (gb_proba b) + 1\<rparr>\<rparr>)"
  proof
    assume "0 < d"
    then have "\<not> d \<le> 0" by simp
    then show "accept b now =
                 Inr (if proba_r (gb_proba b) (drawn (gb_proba b)) < d
                      then Some ErrServiceUnavailable else None,
                      b\<lparr>gb_proba := (gb_proba b)\<lparr>drawn := drawn (gb_proba b) + 1\<rparr>\<rparr>)"
      unfolding acc by (simp only: if_False)
  qed
  have n: "0 \<le> d" by (simp add: d_def)
  have s: "tot \<le> 2 ^ 50 \<and> accepts \<le> 2 ^ 50 \<longrightarrow>
               d = max 0 (f64_round ((real_of_int tot - 5 - 3 / 2 * real_of_int accepts)
                                        / (real_of_int tot + 1))) \<and>
               d \<le> 1"
  proof
    assume h: "tot \<le> 2 ^ 50 \<and> accepts \<le> 2 ^ 50"
    have e: "d = max 0 (f64_round ((real_of_int tot - 5 - 3 / 2 * real_of_int accepts)
                                        / (real_of_int tot + 1)))"
      unfolding d_def using drop_small_exact[OF assms(2,3)] h by simp
    moreover have "d \<le> 1" unfolding e using assms(2,3) h by (intro drop_small_le_one) simp_all
    ultimately show "d = max 0 (f64_round ((real_of_int tot - 5 - 3 / 2 * real_of_int accepts)
                                        / (real_of_int tot + 1))) \<and> d \<le> 1"
      by blast
  qed
  show ?thesis unfolding Let_def d_def[symmetric] using n z p s by blast
qed

theorem accept_drop_ratio_witness:
  "let b = \<lparr>gb_k = 3 / 2,
             gb_stat = \<lparr>rw_size = 2,
                         win = \<lparr>buckets = [\<lparr>Sum = 2, Count = 20\<rparr>, \<lparr>Sum = 0, Count = 0\<rparr>],
                                 wsize = 2\<rparr>,
                         interval = 100, offset = 1, ignoreCurrent = False, lastTime = 1000\<rparr>,
             gb_proba = \<lparr>proba_r = (\<lambda>n. 1 / 2), drawn = 0\<rparr>\<rparr>
   in history b 1010 = Inr (2, 20) \<and>
      accept b 1010 = Inr (Some ErrServiceUnavailable, b\<lparr>gb_proba := \<lparr>proba_r = (\<lambda>n. 1 / 2), drawn = 1\<rparr>\<rparr>)"
proof -
  let ?b = "\<lparr>gb_k = 3 / 2,
             gb_stat = \<lparr>rw_size = 2,
                         win = \<lparr>buckets = [\<lparr>Sum = 2, Count = 20\<rparr>, \<lparr>Sum = 0, Count = 0\<rparr>],
                                 wsize = 2\<rparr>,
                         interval = 100, offset = 1, ignoreCurrent = False, lastTime = 1000\<rparr>,
             gb_proba = \<lparr>proba_r = (\<lambda>n. 1 / 2), drawn = 0\<rparr>\<rparr>"
  have h: "history ?b 1010 = Inr (2, 20)"
    by (simp add: history_def Reduce_def span_rw_def go_quot_def go_rem_def go_index_def
          window_reduce_def window_reduce_from.simps go_trunc_def
          signed_modulo_int_def signed_divide_int_def)
  from accept_drop_ratio[OF h] h show ?thesis
    unfolding Let_def by (simp add: f64_round_four_sevenths)
qed

text \<open>
  C1, the reading the claim gets wrong. At the reading \<open>(0, 8)\<close> the exact ratio is
  \<open>1/3\<close>, and the quotient \<open>3.0 / 9.0\<close> rounds down to the \<open>float64\<close>
  \<open>6004799503160661 / 2^54\<close>. A source that draws this very value draws below \<open>1/3\<close>,
  yet \<open>accept\<close> returns \<open>nil\<close>: the draw is compared with the rounded quotient.
\<close>

theorem accept_rounded_counterexample:
  "accept \<lparr>gb_k = 3 / 2,
           gb_stat = \<lparr>rw_size = 2,
                       win = \<lparr>buckets = [\<lparr>Sum = 0, Count = 8\<rparr>, \<lparr>Sum = 0, Count = 0\<rparr>],
                               wsize = 2\<rparr>,
                       interval = 100, offset = 1, ignoreCurrent = False, lastTime = 1000\<rparr>,
           gb_proba = \<lparr>proba_r = const_draws (6004799503160661 / 18014398509481984),
                        drawn = 0\<rparr>\<rparr> 1010
     = Inr (None,
            \<lparr>gb_k = 3 / 2,
             gb_stat = \<lparr>rw_size = 2,
                         win = \<lparr>buckets = [\<lparr>Sum = 0, Count = 8\<rparr>, \<lparr>Sum = 0, Count = 0\<rparr>],
                                 wsize = 2\<rparr>,
                         interval = 100, offset = 1, ignoreCurrent = False, lastTime = 1000\<rparr>,
             gb_proba = \<lparr>proba_r = const_draws (6004799503160661 / 18014398509481984),
                          drawn = 1\<rparr>\<rparr>) \<and>
   history \<lparr>gb_k = 3 / 2,
            gb_stat = \<lparr>rw_size = 2,
                        win = \<lparr>buckets = [\<lparr>Sum = 0, Count = 8\<rparr>, \<lparr>Sum = 0, Count = 0\<rparr>],
                                wsize = 2\<rparr>,
                        interval = 100, offset = 1, ignoreCurrent = False, lastTime = 1000\<rparr>,
            gb_proba = \<lparr>proba_r = const_draws (6004799503160661 / 18014398509481984),
                         drawn = 0\<rparr>\<rparr> 1010 = Inr (0, 8) \<and>
   const_draws (6004799503160661 / 18014398509481984) 0
     < max 0 ((real_of_int 8 - 5 - 3 / 2 * real_of_int 0) / (real_of_int 8 + 1))"
proof -
  let ?b = "\<lparr>gb_k = 3 / 2,
            gb_stat = \<lparr>rw_size = 2,
                        win = \<lparr>buckets = [\<lparr>Sum = 0, Count = 8\<rparr>, \<lparr>Sum = 0, Count = 0\<rparr>],
                                wsize = 2\<rparr>,
                        interval = 100, offset = 1, ignoreCurrent = False, lastTime = 1000\<rparr>,
            gb_proba = \<lparr>proba_r = const_draws (6004799503160661 / 18014398509481984),
                         drawn = 0\<rparr>\<rparr>"
  have h: "history ?b 1010 = Inr (0, 8)"
    by (simp add: history_def Reduce_def span_rw_def go_quot_def go_rem_def go_index_def
          window_reduce_def window_reduce_from.simps go_trunc_def
          signed_modulo_int_def signed_divide_int_def)
  have a: "accept ?b 1010 = Inr (None, ?b\<lparr>gb_proba := \<lparr>proba_r = const_draws (6004799503160661 / 18014398509481984), drawn = 1\<rparr>\<rparr>)"
    by (simp add: accept_def h Let_def TrueOnProba_def protection_def f64_round_third
          const_draws_def)
  have d: "const_draws (6004799503160661 / 18014398509481984) 0
     < max 0 ((real_of_int 8 - 5 - 3 / 2 * real_of_int 0) / (real_of_int 8 + 1))"
    by (simp add: const_draws_def)
  show ?thesis using h a d by simp
qed

text \<open>
  C7. For a window reading with \<open>0 \<le> total \<le> 5\<close> (a count of at most five recorded
  calls) and \<open>accepts \<ge> 0\<close>, and a sensitivity \<open>k \<ge> 0\<close> (in particular \<open>k = 1.5\<close>),
  the drop ratio is 0, as an exact ratio and as the \<open>float64\<close> the code computes, and
  \<open>accept\<close> returns \<open>nil\<close> without consulting the probability source, whatever that
  source would draw.
\<close>

theorem protection_never_rejects:
  assumes "history b now = Inr (accepts, tot)" "0 \<le> accepts" "0 \<le> tot" "tot \<le> 5"
    "0 \<le> gb_k b"
  shows "max 0 ((real_of_int (tot - protection) - gb_k b * real_of_int accepts)
                  / real_of_int (tot + 1)) \<le> 0 \<and>
         max 0 (f64_round
                  (f64_round (f64_round (real_of_int (tot - protection))
                              - f64_round (gb_k b * f64_round (real_of_int accepts)))
                   / f64_round (real_of_int (tot + 1)))) \<le> 0 \<and>
         accept b now = Inr (None, b)"
proof -
  have "real_of_int (tot - protection) \<le> 0" using assms(4) by (simp add: protection_def)
  moreover have "0 \<le> gb_k b * real_of_int accepts" using assms(2,5) by simp
  ultimately have "real_of_int (tot - protection) - gb_k b * real_of_int accepts \<le> 0"
    by linarith
  moreover have "0 < real_of_int (tot + 1)" using assms(3) by simp
  ultimately have "(real_of_int (tot - protection) - gb_k b * real_of_int accepts)
                  / real_of_int (tot + 1) \<le> 0"
    by (simp only: divide_le_0_iff) simp
  then have m: "max 0 ((real_of_int (tot - protection) - gb_k b * real_of_int accepts)
                  / real_of_int (tot + 1)) \<le> 0"
    by simp
  have t: "f64_round (real_of_int (tot - protection)) \<le> 0"
    using assms(4) by (intro f64_round_nonpos) (simp add: protection_def)
  have "0 \<le> f64_round (real_of_int accepts)"
    using assms(2) by (intro f64_round_nonneg) simp
  then have "0 \<le> gb_k b * f64_round (real_of_int accepts)"
    using assms(5) by simp
  then have w: "0 \<le> f64_round (gb_k b * f64_round (real_of_int accepts))"
    by (rule f64_round_nonneg)
  have "f64_round (real_of_int (tot - protection))
          - f64_round (gb_k b * f64_round (real_of_int accepts)) \<le> 0"
    using t w by linarith
  then have nu: "f64_round (f64_round (real_of_int (tot - protection))
          - f64_round (gb_k b * f64_round (real_of_int accepts))) \<le> 0"
    by (rule f64_round_nonpos)
  have de: "0 \<le> f64_round (real_of_int (tot + 1))"
    using assms(3) by (intro f64_round_nonneg) simp
  have "f64_round (f64_round (real_of_int (tot - protection))
                    - f64_round (gb_k b * f64_round (real_of_int accepts)))
          / f64_round (real_of_int (tot + 1)) \<le> 0"
    using nu de by (rule divide_nonpos_nonneg)
  then have "f64_round
                  (f64_round (f64_round (real_of_int (tot - protection))
                              - f64_round (gb_k b * f64_round (real_of_int accepts)))
                   / f64_round (real_of_int (tot + 1))) \<le> 0"
    by (rule f64_round_nonpos)
  then have r: "max 0 (f64_round
                  (f64_round (f64_round (real_of_int (tot - protection))
                              - f64_round (gb_k b * f64_round (real_of_int accepts)))
                   / f64_round (real_of_int (tot + 1)))) \<le> 0"
    by simp
  have "accept b now = Inr (None, b)"
    unfolding accept_def assms(1) using r by (simp add: Let_def)
  with m r show ?thesis by blast
qed

theorem protection_never_rejects_witness:
  "let b = \<lparr>gb_k = breaker_k,
             gb_stat = \<lparr>rw_size = 2,
                         win = \<lparr>buckets = [\<lparr>Sum = 0, Count = 5\<rparr>, \<lparr>Sum = 0, Count = 0\<rparr>],
                                 wsize = 2\<rparr>,
                         interval = 100, offset = 1, ignoreCurrent = False, lastTime = 1000\<rparr>,
             gb_proba = \<lparr>proba_r = (\<lambda>n. 0), drawn = 0\<rparr>\<rparr>
   in history b 1010 = Inr (0, 5) \<and> accept b 1010 = Inr (None, b)"
proof -
  let ?b = "\<lparr>gb_k = breaker_k,
             gb_stat = \<lparr>rw_size = 2,
                         win = \<lparr>buckets = [\<lparr>Sum = 0, Count = 5\<rparr>, \<lparr>Sum = 0, Count = 0\<rparr>],
                                 wsize = 2\<rparr>,
                         interval = 100, offset = 1, ignoreCurrent = False, lastTime = 1000\<rparr>,
             gb_proba = \<lparr>proba_r = (\<lambda>n. 0), drawn = 0\<rparr>\<rparr>"
  have h: "history ?b 1010 = Inr (0, 5)"
    by (simp add: history_def Reduce_def span_rw_def go_quot_def go_rem_def go_index_def
          window_reduce_def window_reduce_from.simps go_trunc_def
          signed_modulo_int_def signed_divide_int_def)
  have k: "0 \<le> gb_k ?b" by (simp add: breaker_k_def)
  from protection_never_rejects[OF h _ _ _ k] h show ?thesis unfolding Let_def by simp
qed

lemma Add_total:
  assumes "rw_wf rw" "interval rw \<noteq> 0"
  shows "\<exists>rw'. Add rw now1 now2 v = Inr rw'"
proof -
  have "\<exists>sp. span_rw rw now1 = Inr sp"
    using assms(2) by (simp add: span_rw_def go_quot_def)
  then obtain sp where sp: "span_rw rw now1 = Inr sp" by blast
  have "\<exists>rw1. updateOffset rw now1 now2 = Inr rw1"
  proof (cases "0 < sp")
    case True
    show ?thesis using updateOffset_eq[OF assms(1) sp True] by blast
  next
    case False
    then show ?thesis by (simp add: updateOffset_def sp)
  qed
  then obtain rw1 where u: "updateOffset rw now1 now2 = Inr rw1" by blast
  have "rw_wf rw1" using assms(1) u by (rule updateOffset_wf)
  then have n: "0 < wsize (win rw1)" "int (length (buckets (win rw1))) = wsize (win rw1)"
    "0 \<le> offset rw1"
    by (simp_all add: rw_wf_def)
  show ?thesis using window_add_ok[OF n, of v] u by (simp add: Add_def)
qed

lemma history_interval: "history b now = Inr x \<Longrightarrow> interval (gb_stat b) \<noteq> 0"
  by (auto simp: history_def Reduce_def span_rw_def go_quot_def split: if_splits sum.splits)

lemma accept_result:
  assumes "accept b now = Inr (res, b1)"
  shows "gb_stat b1 = gb_stat b \<and> gb_k b1 = gb_k b \<and> interval (gb_stat b) \<noteq> 0 \<and>
         (res = None \<or> res = Some ErrServiceUnavailable)"
proof -
  from assms obtain x where h: "history b now = Inr x"
    by (cases "history b now") (simp_all add: accept_def)
  have iv: "interval (gb_stat b) \<noteq> 0" using h by (rule history_interval)
  from assms h have "gb_stat b1 = gb_stat b \<and> gb_k b1 = gb_k b \<and>
         (res = None \<or> res = Some ErrServiceUnavailable)"
    by (cases x) (auto simp: accept_def Let_def TrueOnProba_def split: if_splits)
  with iv show ?thesis by simp
qed

text \<open>
  C9. \<open>doReq\<close> on a breaker with a well-formed window, when \<open>accept\<close> returns (does not
  panic) with result \<open>res\<close> and breaker \<open>b1\<close>; \<open>accept\<close> leaves the rolling window as it
  was. If admission is denied, \<open>res\<close> is \<open>ErrServiceUnavailable\<close> and \<open>doReq\<close> returns
  the fallback applied to it when a fallback is given, the error itself otherwise; the
  window is unchanged, so neither a success nor a failure is recorded. If the request is
  admitted and returns \<open>err\<close>, \<open>doReq\<close> returns \<open>err\<close> unchanged and the window is the
  result of \<open>Add(1)\<close> when \<open>acceptable(err)\<close> holds and of \<open>Add(0)\<close> otherwise.
\<close>

theorem doReq_outcomes:
  assumes "rw_wf (gb_stat b)" "accept b ta = Inr (res, b1)"
  shows "gb_stat b1 = gb_stat b \<and>
         (res \<noteq> None \<longrightarrow>
            res = Some ErrServiceUnavailable \<and>
            doReq b ta tm tr req fallback acceptable =
              (Returned (case fallback of
                           Some f \<Rightarrow> f ErrServiceUnavailable
                         | None \<Rightarrow> Some ErrServiceUnavailable), b1)) \<and>
         (res = None \<longrightarrow>
            (\<forall>err. req = ReqReturns err \<longrightarrow>
               (\<exists>st. Add (gb_stat b) (fst tm) (snd tm) (if acceptable err then 1 else 0) = Inr st \<and>
                  doReq b ta tm tr req fallback acceptable = (Returned err, b1\<lparr>gb_stat := st\<rparr>))))"
proof -
  from accept_result[OF assms(2)] have
    st: "gb_stat b1 = gb_stat b" and iv: "interval (gb_stat b) \<noteq> 0" and
    res: "res = None \<or> res = Some ErrServiceUnavailable"
    by simp_all
  have denied: "res \<noteq> None \<longrightarrow>
            res = Some ErrServiceUnavailable \<and>
            doReq b ta tm tr req fallback acceptable =
              (Returned (case fallback of
                           Some f \<Rightarrow> f ErrServiceUnavailable
                         | None \<Rightarrow> Some ErrServiceUnavailable), b1)"
    using res assms(2) by (auto simp: doReq_def split: option.splits)
  have admitted: "res = None \<longrightarrow>
            (\<forall>err. req = ReqReturns err \<longrightarrow>
               (\<exists>st. Add (gb_stat b) (fst tm) (snd tm) (if acceptable err then 1 else 0) = Inr st \<and>
                  doReq b ta tm tr req fallback acceptable = (Returned err, b1\<lparr>gb_stat := st\<rparr>)))"
  proof (intro impI allI)
    fix err assume r: "res = None" and q: "req = ReqReturns err"
    from Add_total[OF assms(1) iv, of "fst tm" "snd tm" "if acceptable err then 1 else 0"]
    obtain rw' where a: "Add (gb_stat b) (fst tm) (snd tm) (if acceptable err then 1 else 0) = Inr rw'"
      by blast
    have "doReq b ta tm tr req fallback acceptable = (Returned err, b1\<lparr>gb_stat := rw'\<rparr>)"
      using assms(2) r q a st
      by (auto simp: doReq_def markSuccess_def markFailure_def split: if_splits)
    with a show "\<exists>st. Add (gb_stat b) (fst tm) (snd tm) (if acceptable err then 1 else 0) = Inr st \<and>
                  doReq b ta tm tr req fallback acceptable = (Returned err, b1\<lparr>gb_stat := st\<rparr>)"
      by blast
  qed
  show ?thesis using st denied admitted by blast
qed

theorem doReq_outcomes_witness:
  "let b = \<lparr>gb_k = 3 / 2,
             gb_stat = \<lparr>rw_size = 2,
                         win = \<lparr>buckets = [\<lparr>Sum = 2, Count = 20\<rparr>, \<lparr>Sum = 0, Count = 0\<rparr>],
                                 wsize = 2\<rparr>,
                         interval = 100, offset = 1, ignoreCurrent = False, lastTime = 1000\<rparr>,
             gb_proba = \<lparr>proba_r = (\<lambda>n. 1 / 2), drawn = 0\<rparr>\<rparr>;
       b1 = b\<lparr>gb_proba := \<lparr>proba_r = (\<lambda>n. 1 / 2), drawn = 1\<rparr>\<rparr>
   in rw_wf (gb_stat b) \<and>
      accept b 1010 = Inr (Some ErrServiceUnavailable, b1) \<and>
      doReq b 1010 (1020, 1021) (1030, 1031) (ReqReturns None) (Some (\<lambda>e. Some (UserError ''busy'')))
        (\<lambda>e. e = None) = (Returned (Some (UserError ''busy'')), b1)"
proof -
  let ?b = "\<lparr>gb_k = 3 / 2,
             gb_stat = \<lparr>rw_size = 2,
                         win = \<lparr>buckets = [\<lparr>Sum = 2, Count = 20\<rparr>, \<lparr>Sum = 0, Count = 0\<rparr>],
                                 wsize = 2\<rparr>,
                         interval = 100, offset = 1, ignoreCurrent = False, lastTime = 1000\<rparr>,
             gb_proba = \<lparr>proba_r = (\<lambda>n. 1 / 2), drawn = 0\<rparr>\<rparr>"
  let ?b1 = "?b\<lparr>gb_proba := \<lparr>proba_r = (\<lambda>n. 1 / 2), drawn = 1\<rparr>\<rparr>"
  have wf: "rw_wf (gb_stat ?b)" by (simp add: rw_wf_def)
  have h: "history ?b 1010 = Inr (2, 20)"
    by (simp add: history_def Reduce_def span_rw_def go_quot_def go_rem_def go_index_def
          window_reduce_def window_reduce_from.simps go_trunc_def
          signed_modulo_int_def signed_divide_int_def)
  have a: "accept ?b 1010 = Inr (Some ErrServiceUnavailable, ?b1)"
    by (simp add: accept_def h Let_def TrueOnProba_def protection_def f64_round_four_sevenths)
  from doReq_outcomes[OF wf a, of "(1020, 1021)" "(1030, 1031)" "ReqReturns None"
      "Some (\<lambda>e. Some (UserError ''busy''))" "\<lambda>e. e = None"]
  show ?thesis unfolding Let_def using wf a by simp
qed

section \<open>Proofs: consistent hash ring\<close>

lemma Search_loop_spec:
  assumes "0 \<le> i" "i \<le> j" "j \<le> n"
    "\<forall>a b. 0 \<le> a \<and> a \<le> b \<and> b < n \<and> f a \<longrightarrow> f b"
    "\<forall>k. 0 \<le> k \<and> k < i \<longrightarrow> \<not> f k" "\<forall>k. j \<le> k \<and> k < n \<longrightarrow> f k"
  shows "i \<le> Search_loop f i j \<and> Search_loop f i j \<le> j \<and>
         (\<forall>k. 0 \<le> k \<and> k < Search_loop f i j \<longrightarrow> \<not> f k) \<and>
         (\<forall>k. Search_loop f i j \<le> k \<and> k < n \<longrightarrow> f k)"
  using assms
proof (induction f i j rule: Search_loop.induct)
  case (1 f i j)
  note p = "1.prems"
  show ?case
  proof (cases "i < j")
    case False
    have e: "Search_loop f i j = i" using False by (subst Search_loop.simps) simp
    have ij: "i = j" using False p(2) by simp
    show ?thesis unfolding e
    proof (intro conjI)
      show "i \<le> i" by simp
      show "i \<le> j" by (rule p(2))
      show "\<forall>k. 0 \<le> k \<and> k < i \<longrightarrow> \<not> f k" by (rule p(5))
      show "\<forall>k. i \<le> k \<and> k < n \<longrightarrow> f k" using p(6) unfolding ij .
    qed
  next
    case True
    define h where "h = (i + j) div 2"
    have h1: "i \<le> h" using True unfolding h_def by linarith
    have h2: "h < j" using True unfolding h_def by linarith
    show ?thesis
    proof (cases "f h")
      case False
      have eq: "Search_loop f i j = Search_loop f (h + 1) j"
        using True False by (subst Search_loop.simps) (simp add: Let_def h_def[symmetric])
      have lo: "\<forall>k. 0 \<le> k \<and> k < h + 1 \<longrightarrow> \<not> f k"
      proof (intro allI impI)
        fix k assume k: "0 \<le> k \<and> k < h + 1"
        show "\<not> f k"
        proof
          assume fk: "f k"
          have "0 \<le> k \<and> k \<le> h \<and> h < n \<and> f k" using k h2 p(3) fk by simp
          then have "f h" using p(4) by blast
          with False show False by simp
        qed
      qed
      have a1: "0 \<le> h + 1" using h1 p(1) by simp
      have a2: "h + 1 \<le> j" using h2 by simp
      note IH = "1.IH"(1)[OF True h_def False a1 a2 p(3) p(4) lo p(6)]
      show ?thesis unfolding eq
      proof (intro conjI)
        show "i \<le> Search_loop f (h + 1) j" using IH h1 by linarith
        show "Search_loop f (h + 1) j \<le> j" using IH by blast
        show "\<forall>k. 0 \<le> k \<and> k < Search_loop f (h + 1) j \<longrightarrow> \<not> f k" using IH by blast
        show "\<forall>k. Search_loop f (h + 1) j \<le> k \<and> k < n \<longrightarrow> f k" using IH by blast
      qed
    next
      case fh: True
      have eq: "Search_loop f i j = Search_loop f i h"
        using True fh by (subst Search_loop.simps) (simp add: Let_def h_def[symmetric])
      have hi: "\<forall>k. h \<le> k \<and> k < n \<longrightarrow> f k"
      proof (intro allI impI)
        fix k assume k: "h \<le> k \<and> k < n"
        have "0 \<le> h \<and> h \<le> k \<and> k < n \<and> f h" using k h1 p(1) fh by simp
        then show "f k" using p(4) by blast
      qed
      have nn: "\<not> \<not> f h" using fh by simp
      have a3: "h \<le> n" using h2 p(3) by simp
      note IH = "1.IH"(2)[OF True h_def nn p(1) h1 a3 p(4) p(5) hi]
      show ?thesis unfolding eq
      proof (intro conjI)
        show "i \<le> Search_loop f i h" using IH by blast
        show "Search_loop f i h \<le> j" using IH h2 by linarith
        show "\<forall>k. 0 \<le> k \<and> k < Search_loop f i h \<longrightarrow> \<not> f k" using IH by blast
        show "\<forall>k. Search_loop f i h \<le> k \<and> k < n \<longrightarrow> f k" using IH by blast
      qed
    qed
  qed
qed

lemma Search_found:
  fixes ks :: "uint64 list"
  assumes "sorted ks" "x \<in> set ks"
  shows "0 \<le> Search (int (length ks)) (\<lambda>i. ks ! nat i \<ge> x) \<and>
         Search (int (length ks)) (\<lambda>i. ks ! nat i \<ge> x) < int (length ks) \<and>
         ks ! nat (Search (int (length ks)) (\<lambda>i. ks ! nat i \<ge> x)) = x"
proof -
  let ?f = "\<lambda>i. ks ! nat i \<ge> x"
  let ?n = "int (length ks)"
  let ?r = "Search ?n ?f"
  have mono: "\<forall>a b. 0 \<le> a \<and> a \<le> b \<and> b < ?n \<and> ?f a \<longrightarrow> ?f b"
  proof (intro allI impI)
    fix a b assume ab: "0 \<le> a \<and> a \<le> b \<and> b < ?n \<and> ?f a"
    have "nat a \<le> nat b" using ab by auto
    moreover have "nat b < length ks" using ab by auto
    ultimately have "ks ! nat a \<le> ks ! nat b" using assms(1) by (simp add: sorted_nth_mono)
    with ab show "?f b" by (blast intro: order_trans)
  qed
  have a1: "(0::int) \<le> 0" by simp
  have a2: "0 \<le> ?n" by simp
  have a3: "?n \<le> ?n" by simp
  have a5: "\<forall>k. 0 \<le> k \<and> k < (0::int) \<longrightarrow> \<not> ?f k" by auto
  have a6: "\<forall>k. ?n \<le> k \<and> k < ?n \<longrightarrow> ?f k" by auto
  have spec: "0 \<le> ?r \<and> ?r \<le> ?n \<and> (\<forall>k. 0 \<le> k \<and> k < ?r \<longrightarrow> \<not> ?f k) \<and>
         (\<forall>k. ?r \<le> k \<and> k < ?n \<longrightarrow> ?f k)"
    unfolding Search_def
    by (rule Search_loop_spec[OF a1 a2 a3 mono a5 a6])
  from assms(2) obtain m where m: "m < length ks" "ks ! m = x"
    by (auto simp: in_set_conv_nth)
  have rm: "?r \<le> int m"
  proof (rule ccontr)
    assume "\<not> ?r \<le> int m"
    then have "0 \<le> int m \<and> int m < ?r" by simp
    with spec have "\<not> ?f (int m)" by blast
    with m show False by simp
  qed
  have r0: "0 \<le> ?r" using spec by blast
  have lt: "?r < ?n" using rm m(1) by linarith
  have ge: "x \<le> ks ! nat ?r" using spec lt by blast
  have "nat ?r \<le> m" using rm r0 by linarith
  then have "ks ! nat ?r \<le> ks ! m" using assms(1) m(1) by (simp add: sorted_nth_mono)
  with ge m(2) have "ks ! nat ?r = x" by simp
  with r0 lt show ?thesis by blast
qed

lemma cut_mset:
  assumes "r < length ks"
  shows "mset (take r ks @ drop (Suc r) ks) = mset ks - {#ks ! r#}"
proof -
  have "mset ks = mset (take r ks @ ks ! r # drop (Suc r) ks)"
    by (rule arg_cong[OF id_take_nth_drop[OF assms]])
  also have "\<dots> = mset (take r ks @ drop (Suc r) ks) + {#ks ! r#}" by simp
  finally show ?thesis by simp
qed

lemma cut_sorted:
  fixes ks :: "uint64 list"
  assumes "sorted ks"
  shows "sorted (take r ks @ drop (Suc r) ks)"
proof -
  have "sorted (take r ks @ drop r ks)" using assms by simp
  note X = this[unfolded sorted_append]
  have sub: "set (drop (Suc r) ks) \<subseteq> set (drop r ks)"
    by (rule set_drop_subset_set_drop) simp
  have sd: "sorted (drop (Suc r) ks)" using assms by (rule sorted_wrt_drop)
  have "\<forall>a \<in> set (take r ks). \<forall>b \<in> set (drop (Suc r) ks). a \<le> b"
    using X sub by blast
  with X sd show ?thesis unfolding sorted_append by blast
qed

lemma removeRingNode_fields [simp]:
  "hashFunc (removeRingNode repr h g nr) = hashFunc h"
  "replicas (removeRingNode repr h g nr) = replicas h"
  "keys (removeRingNode repr h g nr) = keys h"
  "nodes (removeRingNode repr h g nr) = nodes h"
  by (simp_all add: removeRingNode_def Let_def split: option.splits)

lemma removeRingNode_bucket:
  "bucket_of (removeRingNode repr h g nr) g' =
     (if g' = g then {x \<in> bucket_of h g. repr x \<noteq> nr} else bucket_of h g')"
  by (auto simp: removeRingNode_def bucket_of_def Let_def filter_empty_conv split: option.splits)

lemma Remove_step_fields [simp]:
  "hashFunc (Remove_step repr h nr i) = hashFunc h"
  "replicas (Remove_step repr h nr i) = replicas h"
  "nodes (Remove_step repr h nr i) = nodes h"
  by (simp_all add: Remove_step_def Let_def)

lemma Remove_step_keys_subset: "set (keys (Remove_step repr h nr i)) \<subseteq> set (keys h)"
  by (auto simp: Remove_step_def Let_def dest: in_set_takeD in_set_dropD)

lemma bucket_of_keys_update [simp]: "bucket_of (h\<lparr>keys := ks\<rparr>) g = bucket_of h g"
  by (simp add: bucket_of_def)

lemma bucket_of_nodes_update [simp]: "bucket_of (h\<lparr>nodes := ns\<rparr>) g = bucket_of h g"
  by (simp add: bucket_of_def)

lemma Remove_step_bucket:
  "bucket_of (Remove_step repr h nr i) g =
     (if g = hashFunc h (nr @ Itoa i) then {x \<in> bucket_of h g. repr x \<noteq> nr} else bucket_of h g)"
  by (simp add: Remove_step_def Let_def removeRingNode_bucket)

lemma Remove_step_keys_found:
  assumes "sorted (keys h)" "hashFunc h (nr @ Itoa i) \<in> set (keys h)"
  shows "sorted (keys (Remove_step repr h nr i)) \<and>
         mset (keys (Remove_step repr h nr i)) = mset (keys h) - {#hashFunc h (nr @ Itoa i)#}"
proof -
  let ?x = "hashFunc h (nr @ Itoa i)"
  let ?r = "Search (int (length (keys h))) (\<lambda>i. keys h ! nat i \<ge> ?x)"
  from Search_found[OF assms] have r: "0 \<le> ?r" "?r < int (length (keys h))" "keys h ! nat ?r = ?x"
    by blast+
  have k: "keys (Remove_step repr h nr i) = take (nat ?r) (keys h) @ drop (Suc (nat ?r)) (keys h)"
    using r(1,2) by (simp add: Remove_step_def Let_def nat_add_distrib)
  have "nat ?r < length (keys h)" using r(1,2) by linarith
  from cut_mset[OF this] cut_sorted[OF assms(1), of "nat ?r"] r(3)
  show ?thesis unfolding k by simp
qed

lemma Remove_loop_fields:
  "hashFunc (Remove_loop repr h nr n i) = hashFunc h \<and>
   replicas (Remove_loop repr h nr n i) = replicas h \<and>
   nodes (Remove_loop repr h nr n i) = nodes h \<and>
   set (keys (Remove_loop repr h nr n i)) \<subseteq> set (keys h)"
proof (induction repr h nr n i rule: Remove_loop.induct)
  case (1 repr h nr n i)
  show ?case
  proof (cases "i < n")
    case True
    have e: "Remove_loop repr h nr n i = Remove_loop repr (Remove_step repr h nr i) nr n (i + 1)"
      using True by (subst Remove_loop.simps) simp
    show ?thesis unfolding e using "1.IH"[OF True] Remove_step_keys_subset[of repr h nr i]
      by auto
  next
    case False
    then show ?thesis by (subst (1 2 3 4) Remove_loop.simps) simp
  qed
qed

lemma Remove_loop_bucket:
  "bucket_of (Remove_loop repr h nr n i) g =
     (if g \<in> (\<lambda>k. hashFunc h (nr @ Itoa k)) ` {i..<n}
      then {x \<in> bucket_of h g. repr x \<noteq> nr} else bucket_of h g)"
proof (induction repr h nr n i rule: Remove_loop.induct)
  case (1 repr h nr n i)
  show ?case
  proof (cases "i < n")
    case True
    have e: "Remove_loop repr h nr n i = Remove_loop repr (Remove_step repr h nr i) nr n (i + 1)"
      using True by (subst Remove_loop.simps) simp
    have s: "{i..<n} = insert i {i + 1..<n}" using True by auto
    show ?thesis unfolding e "1.IH"[OF True] s
      by (auto simp: Remove_step_bucket)
  next
    case False
    then have "Remove_loop repr h nr n i = h" by (subst Remove_loop.simps) simp
    moreover have "{i..<n} = {}" using False by simp
    ultimately show ?thesis by simp
  qed
qed

lemma Remove_loop_keys_exact:
  assumes "sorted (keys h)"
    "mset (keys h) = M + mset (map (\<lambda>k. hashFunc h (nr @ Itoa k)) [i..n - 1])"
  shows "sorted (keys (Remove_loop repr h nr n i)) \<and> mset (keys (Remove_loop repr h nr n i)) = M"
  using assms
proof (induction repr h nr n i rule: Remove_loop.induct)
  case (1 repr h nr n i)
  show ?case
  proof (cases "i < n")
    case True
    have e: "Remove_loop repr h nr n i = Remove_loop repr (Remove_step repr h nr i) nr n (i + 1)"
      using True by (subst Remove_loop.simps) simp
    have up: "[i..n - 1] = i # [i + 1..n - 1]" using True by (intro upto_rec1) simp
    have ms: "mset (keys h) = M + mset (map (\<lambda>k. hashFunc h (nr @ Itoa k)) [i + 1..n - 1])
                + {#hashFunc h (nr @ Itoa i)#}"
      using "1.prems"(2) unfolding up by simp
    then have "hashFunc h (nr @ Itoa i) \<in># mset (keys h)" by simp
    then have mem: "hashFunc h (nr @ Itoa i) \<in> set (keys h)" by simp
    from Remove_step_keys_found[OF "1.prems"(1) mem, of repr]
    have st: "sorted (keys (Remove_step repr h nr i))"
      and m': "mset (keys (Remove_step repr h nr i)) = mset (keys h) - {#hashFunc h (nr @ Itoa i)#}"
      by blast+
    have m'': "mset (keys (Remove_step repr h nr i)) =
             M + mset (map (\<lambda>k. hashFunc (Remove_step repr h nr i) (nr @ Itoa k)) [i + 1..n - 1])"
      unfolding m' ms by simp
    show ?thesis unfolding e by (rule "1.IH"[OF True st m''])
  next
    case False
    then have e: "Remove_loop repr h nr n i = h" by (subst Remove_loop.simps) simp
    have "[i..n - 1] = []" using False by simp
    then show ?thesis unfolding e using "1.prems" by simp
  qed
qed

lemma AddWithReplicas_step_fields [simp]:
  "hashFunc (AddWithReplicas_step h node nr i) = hashFunc h"
  "replicas (AddWithReplicas_step h node nr i) = replicas h"
  "nodes (AddWithReplicas_step h node nr i) = nodes h"
  "keys (AddWithReplicas_step h node nr i) = keys h @ [hashFunc h (nr @ Itoa i)]"
  by (simp_all add: AddWithReplicas_step_def Let_def)

lemma AddWithReplicas_step_bucket:
  "bucket_of (AddWithReplicas_step h node nr i) g =
     (if g = hashFunc h (nr @ Itoa i) then insert node (bucket_of h g) else bucket_of h g)"
  by (auto simp: AddWithReplicas_step_def Let_def bucket_of_def split: option.splits)

lemma AddWithReplicas_loop_fields:
  "hashFunc (AddWithReplicas_loop h node nr n i) = hashFunc h \<and>
   replicas (AddWithReplicas_loop h node nr n i) = replicas h \<and>
   nodes (AddWithReplicas_loop h node nr n i) = nodes h \<and>
   keys (AddWithReplicas_loop h node nr n i) =
     keys h @ map (\<lambda>k. hashFunc h (nr @ Itoa k)) [i..n - 1]"
proof (induction h node nr n i rule: AddWithReplicas_loop.induct)
  case (1 h node nr n i)
  show ?case
  proof (cases "i < n")
    case True
    have e: "AddWithReplicas_loop h node nr n i =
             AddWithReplicas_loop (AddWithReplicas_step h node nr i) node nr n (i + 1)"
      using True by (subst AddWithReplicas_loop.simps) simp
    have up: "[i..n - 1] = i # [i + 1..n - 1]" using True by (intro upto_rec1) simp
    show ?thesis unfolding e up using "1.IH"[OF True] by simp
  next
    case False
    then have e: "AddWithReplicas_loop h node nr n i = h"
      by (subst AddWithReplicas_loop.simps) simp
    have "[i..n - 1] = []" using False by simp
    then show ?thesis unfolding e by simp
  qed
qed

lemma AddWithReplicas_loop_bucket:
  "bucket_of (AddWithReplicas_loop h node nr n i) g =
     (if g \<in> (\<lambda>k. hashFunc h (nr @ Itoa k)) ` {i..<n}
      then insert node (bucket_of h g) else bucket_of h g)"
proof (induction h node nr n i rule: AddWithReplicas_loop.induct)
  case (1 h node nr n i)
  show ?case
  proof (cases "i < n")
    case True
    have e: "AddWithReplicas_loop h node nr n i =
             AddWithReplicas_loop (AddWithReplicas_step h node nr i) node nr n (i + 1)"
      using True by (subst AddWithReplicas_loop.simps) simp
    have s: "{i..<n} = insert i {i + 1..<n}" using True by auto
    show ?thesis unfolding e "1.IH"[OF True] s
      by (auto simp: AddWithReplicas_step_bucket)
  next
    case False
    then have "AddWithReplicas_loop h node nr n i = h"
      by (subst AddWithReplicas_loop.simps) simp
    moreover have "{i..<n} = {}" using False by simp
    ultimately show ?thesis by simp
  qed
qed

lemma ch_Remove_fields:
  "hashFunc (ch_Remove repr h node) = hashFunc h \<and>
   replicas (ch_Remove repr h node) = replicas h \<and>
   nodes (ch_Remove repr h node) = nodes h - {repr node} \<and>
   set (keys (ch_Remove repr h node)) \<subseteq> set (keys h)"
  using Remove_loop_fields[of repr h "repr node" "replicas h" 0]
  by (auto simp: ch_Remove_def Let_def containsNode_def removeNode_def)

lemma ch_Remove_bucket_subset: "bucket_of (ch_Remove repr h node) g \<subseteq> bucket_of h g"
  by (auto simp: ch_Remove_def Let_def removeNode_def Remove_loop_bucket split: if_splits)

lemma ch_AddWithReplicas_eq:
  "ch_AddWithReplicas repr h node n =
     (AddWithReplicas_loop (addNode (ch_Remove repr h node) (repr node)) node (repr node)
        (min n (replicas h)) 0)
     \<lparr>keys := sort (keys (ch_Remove repr h node) @
                map (\<lambda>i. hashFunc h (repr node @ Itoa i)) [0..min n (replicas h) - 1])\<rparr>"
proof -
  have r: "replicas (ch_Remove repr h node) = replicas h"
    and f: "hashFunc (ch_Remove repr h node) = hashFunc h"
    using ch_Remove_fields[of repr h node] by simp_all
  have m: "(if n > replicas h then replicas h else n) = min n (replicas h)"
    by (simp add: min_def)
  show ?thesis
    unfolding ch_AddWithReplicas_def Let_def r m
    using AddWithReplicas_loop_fields[of "addNode (ch_Remove repr h node) (repr node)" node
        "repr node" "min n (replicas h)" 0]
    by (simp add: addNode_def f)
qed

lemma ch_AddWithReplicas_fields:
  "hashFunc (ch_AddWithReplicas repr h node n) = hashFunc h \<and>
   replicas (ch_AddWithReplicas repr h node n) = replicas h \<and>
   nodes (ch_AddWithReplicas repr h node n) = insert (repr node) (nodes h) \<and>
   keys (ch_AddWithReplicas repr h node n) =
     sort (keys (ch_Remove repr h node) @
           map (\<lambda>i. hashFunc h (repr node @ Itoa i)) [0..min n (replicas h) - 1])"
  unfolding ch_AddWithReplicas_eq
  using AddWithReplicas_loop_fields[of "addNode (ch_Remove repr h node) (repr node)" node
        "repr node" "min n (replicas h)" 0] ch_Remove_fields[of repr h node]
  by (auto simp: addNode_def)

lemma ch_AddWithReplicas_bucket:
  "bucket_of (ch_AddWithReplicas repr h node n) g =
     (if g \<in> (\<lambda>k. hashFunc h (repr node @ Itoa k)) ` {0..<min n (replicas h)}
      then insert node (bucket_of (ch_Remove repr h node) g)
      else bucket_of (ch_Remove repr h node) g)"
  unfolding ch_AddWithReplicas_eq
  using ch_Remove_fields[of repr h node]
  by (simp add: AddWithReplicas_loop_bucket addNode_def)

lemma ring_inv_new: "ring_inv repr (NewCustomConsistentHash dflt n fn)"
  by (simp add: ring_inv_def NewCustomConsistentHash_def bucket_of_def)

lemma ring_inv_remove:
  assumes "ring_inv repr h"
  shows "ring_inv repr (ch_Remove repr h node)"
  unfolding ring_inv_def
proof (intro allI impI)
  fix g x assume "x \<in> bucket_of (ch_Remove repr h node) g"
  then have "x \<in> bucket_of h g" by (rule subsetD[OF ch_Remove_bucket_subset])
  then have "\<exists>i. 0 \<le> i \<and> i < replicas h \<and> g = hashFunc h (repr x @ Itoa i)"
    using assms unfolding ring_inv_def by blast
  then show "\<exists>i. 0 \<le> i \<and> i < replicas (ch_Remove repr h node) \<and>
               g = hashFunc (ch_Remove repr h node) (repr x @ Itoa i)"
    using ch_Remove_fields[of repr h node] by simp
qed

lemma ring_inv_add:
  assumes "ring_inv repr h"
  shows "ring_inv repr (ch_AddWithReplicas repr h node n)"
  unfolding ring_inv_def
proof (intro allI impI)
  fix g x assume x: "x \<in> bucket_of (ch_AddWithReplicas repr h node n) g"
  have "\<exists>i. 0 \<le> i \<and> i < replicas h \<and> g = hashFunc h (repr x @ Itoa i)"
  proof (cases "x \<in> bucket_of (ch_Remove repr h node) g")
    case True
    then have "x \<in> bucket_of h g" by (rule subsetD[OF ch_Remove_bucket_subset])
    then show ?thesis using assms unfolding ring_inv_def by blast
  next
    case False
    with x have "x = node \<and> g \<in> (\<lambda>k. hashFunc h (repr node @ Itoa k)) ` {0..<min n (replicas h)}"
      unfolding ch_AddWithReplicas_bucket by (auto split: if_splits)
    then show ?thesis by auto
  qed
  then show "\<exists>i. 0 \<le> i \<and> i < replicas (ch_AddWithReplicas repr h node n) \<and>
               g = hashFunc (ch_AddWithReplicas repr h node n) (repr x @ Itoa i)"
    using ch_AddWithReplicas_fields[of repr h node n] by simp
qed

lemma ch_reachable_ring_inv: "ch_reachable repr h \<Longrightarrow> ring_inv repr h"
  by (induction rule: ch_reachable.induct) (simp_all add: ring_inv_new ring_inv_add ring_inv_remove)

text \<open>
  C8. For a ring \<open>h\<close> that a program can build and a node \<open>n\<close> none of whose virtual
  positions \<open>hash(repr n + Itoa i)\<close>, \<open>0 \<le> i < replicas\<close>, is in \<open>keys\<close>: after
  \<open>Add(n); Remove(n)\<close> no element of \<open>keys\<close> is one of these hashes, no ring bucket
  contains \<open>n\<close> (nor any node with the representation of \<open>n\<close>), and the representation
  of \<open>n\<close> is not in the node set.
\<close>

theorem add_remove_leaves_no_position:
  assumes "ch_reachable repr h"
    "\<forall>i. 0 \<le> i \<and> i < replicas h \<longrightarrow> hashFunc h (repr n @ Itoa i) \<notin> set (keys h)"
  shows "let h' = ch_Remove repr (ch_Add repr h n) n in
           (\<forall>i. 0 \<le> i \<and> i < replicas h' \<longrightarrow> hashFunc h' (repr n @ Itoa i) \<notin> set (keys h')) \<and>
           (\<forall>g ns. ring h' g = Some ns \<longrightarrow> n \<notin> set ns \<and> (\<forall>x \<in> set ns. repr x \<noteq> repr n)) \<and>
           repr n \<notin> nodes h' \<and>
           hashFunc h' = hashFunc h \<and> replicas h' = replicas h"
proof -
  let ?H = "\<lambda>i. hashFunc h (repr n @ Itoa i)"
  let ?R = "replicas h"
  let ?h1 = "ch_Remove repr h n"
  let ?h2 = "ch_Add repr h n"
  let ?h' = "ch_Remove repr ?h2 n"
  have inv: "ring_inv repr h" using assms(1) by (rule ch_reachable_ring_inv)
  have f1: "set (keys ?h1) \<subseteq> set (keys h)" using ch_Remove_fields[of repr h n] by blast
  have f2: "hashFunc ?h2 = hashFunc h" "replicas ?h2 = ?R"
    "nodes ?h2 = insert (repr n) (nodes h)"
    "keys ?h2 = sort (keys ?h1 @ map ?H [0..?R - 1])"
    using ch_AddWithReplicas_fields[of repr h n ?R] by (simp_all add: ch_Add_def)
  have cn: "containsNode ?h2 (repr n)" by (simp add: containsNode_def f2)
  let ?L = "Remove_loop repr ?h2 (repr n) ?R 0"
  have h': "?h' = removeNode ?L (repr n)"
    using cn by (simp add: ch_Remove_def Let_def f2)
  have s2: "sorted (keys ?h2)" by (simp add: f2)
  have m2: "mset (keys ?h2) = mset (keys ?h1) + mset (map (\<lambda>k. hashFunc ?h2 (repr n @ Itoa k)) [0..?R - 1])"
    by (simp add: f2)
  from Remove_loop_keys_exact[OF s2 m2, of repr]
  have mL: "mset (keys ?L) = mset (keys ?h1)" by blast
  have kL: "set (keys ?L) = set (keys ?h1)" using mL by (rule mset_eq_setD)
  have Lf: "hashFunc ?L = hashFunc h" "replicas ?L = ?R" "nodes ?L = nodes ?h2"
    using Remove_loop_fields[of repr ?h2 "repr n" ?R 0] f2 by simp_all
  have keys': "keys ?h' = keys ?L" "hashFunc ?h' = hashFunc h" "replicas ?h' = ?R"
    "nodes ?h' = nodes ?L - {repr n}"
    unfolding h' by (simp_all add: removeNode_def Lf)
  have c1: "\<forall>i. 0 \<le> i \<and> i < replicas ?h' \<longrightarrow> hashFunc ?h' (repr n @ Itoa i) \<notin> set (keys ?h')"
    using assms(2) f1 kL unfolding keys' by blast
  have bL: "\<And>g. bucket_of ?h' g =
     (if g \<in> ?H ` {0..<?R} then {x \<in> bucket_of ?h2 g. repr x \<noteq> repr n} else bucket_of ?h2 g)"
    unfolding h' by (simp add: removeNode_def Remove_loop_bucket f2)
  have none: "\<And>g x. x \<in> bucket_of ?h' g \<Longrightarrow> repr x \<noteq> repr n"
  proof -
    fix g x assume x: "x \<in> bucket_of ?h' g"
    show "repr x \<noteq> repr n"
    proof (cases "g \<in> ?H ` {0..<?R}")
      case True
      with x show ?thesis unfolding bL by simp
    next
      case False
      with x have "x \<in> bucket_of ?h2 g" unfolding bL by simp
      then have "x \<in> bucket_of ?h1 g"
        using False unfolding ch_Add_def ch_AddWithReplicas_bucket by simp
      then have "x \<in> bucket_of h g" by (rule subsetD[OF ch_Remove_bucket_subset])
      then obtain i where i: "0 \<le> i" "i < ?R" "g = hashFunc h (repr x @ Itoa i)"
        using inv unfolding ring_inv_def by blast
      show ?thesis
      proof
        assume "repr x = repr n"
        with i have "g \<in> ?H ` {0..<?R}" by auto
        with False show False by simp
      qed
    qed
  qed
  have c2: "\<forall>g ns. ring ?h' g = Some ns \<longrightarrow> n \<notin> set ns \<and> (\<forall>x \<in> set ns. repr x \<noteq> repr n)"
  proof (intro allI impI)
    fix g ns assume r: "ring ?h' g = Some ns"
    then have b: "bucket_of ?h' g = set ns" by (simp add: bucket_of_def)
    have "\<forall>x \<in> set ns. repr x \<noteq> repr n" using none[of _ g] unfolding b by blast
    then show "n \<notin> set ns \<and> (\<forall>x \<in> set ns. repr x \<noteq> repr n)" by blast
  qed
  have c3: "repr n \<notin> nodes ?h'" unfolding keys' by simp
  show ?thesis unfolding Let_def using c1 c2 c3 keys'(2,3) by blast
qed

theorem add_remove_leaves_no_position_witness:
  "ch_reachable id (NewCustomConsistentHash length_hash 100 None :: string ConsistentHash) \<and>
   keys (NewCustomConsistentHash length_hash 100 None :: string ConsistentHash) = [] \<and>
   ''a'' \<notin> nodes (ch_Remove id (ch_Add id (NewCustomConsistentHash length_hash 100 None) ''a'') ''a'') \<and>
   replicas (ch_Remove id (ch_Add id (NewCustomConsistentHash length_hash 100 None) ''a'') ''a'') = 100"
proof -
  let ?h = "NewCustomConsistentHash length_hash 100 None :: string ConsistentHash"
  have r: "ch_reachable id ?h" by (rule ch_new)
  have e: "keys ?h = []" by (simp add: NewCustomConsistentHash_def)
  have k: "\<forall>i. 0 \<le> i \<and> i < replicas ?h \<longrightarrow> hashFunc ?h (id ''a'' @ Itoa i) \<notin> set (keys ?h)"
    by (simp add: e)
  have p: "replicas ?h = 100" by (simp add: NewCustomConsistentHash_def minReplicas_def)
  note T = add_remove_leaves_no_position[OF r k, unfolded Let_def]
  show ?thesis using r e T p by simp
qed











section \<open>Proofs: shared calls\<close>

lemma indexing_owning: "indexing p = Some (c, key) \<Longrightarrow> owning p = Some c"
  by (cases p) simp_all

lemma owning_None_indexing: "owning p = None \<Longrightarrow> indexing p = None"
  by (cases p) simp_all

lemma sc_inv_init: "sc_inv (NewSharedCalls :: 'v sharedGroup)"
  by (simp add: sc_inv_def NewSharedCalls_def)

lemma sc_inv_pc_same:
  assumes "sc_inv s" "indexing p = indexing (pcs s t)" "owning p = owning (pcs s t)"
  shows "sc_inv (s\<lparr>pcs := (pcs s)(t := p)\<rparr>)"
  unfolding sc_inv_def
proof (intro conjI allI impI)
  fix key c assume "calls (s\<lparr>pcs := (pcs s)(t := p)\<rparr>) key = Some c"
  then have c: "calls s key = Some c" by simp
  with assms(1) show "\<exists>r. mem (s\<lparr>pcs := (pcs s)(t := p)\<rparr>) c = Some r \<and> wg r = 1"
    by (simp add: sc_inv_def)
  from c assms(1) obtain t' where t': "indexing (pcs s t') = Some (c, key)"
    unfolding sc_inv_def by blast
  have "indexing (pcs (s\<lparr>pcs := (pcs s)(t := p)\<rparr>) t') = Some (c, key)"
    using t' assms(2) by (cases "t' = t") simp_all
  then show "\<exists>t'. indexing (pcs (s\<lparr>pcs := (pcs s)(t := p)\<rparr>) t') = Some (c, key)" by blast
next
  fix ta tb c
  assume "owning (pcs (s\<lparr>pcs := (pcs s)(t := p)\<rparr>) ta) = Some c \<and>
          owning (pcs (s\<lparr>pcs := (pcs s)(t := p)\<rparr>) tb) = Some c"
  then have "owning (pcs s ta) = Some c \<and> owning (pcs s tb) = Some c"
    using assms(3) by (auto split: if_splits)
  with assms(1) show "ta = tb" unfolding sc_inv_def by blast
next
  fix ta c assume "owning (pcs (s\<lparr>pcs := (pcs s)(t := p)\<rparr>) ta) = Some c"
  then have "owning (pcs s ta) = Some c" using assms(3) by (auto split: if_splits)
  with assms(1) show "c \<in> dom (mem (s\<lparr>pcs := (pcs s)(t := p)\<rparr>))"
    unfolding sc_inv_def by simp
qed

lemma sc_inv_mem_same_wg:
  assumes "sc_inv s" "mem s c = Some r" "wg r' = wg r"
  shows "sc_inv (s\<lparr>mem := (mem s)(c \<mapsto> r')\<rparr>)"
  unfolding sc_inv_def
proof (intro conjI allI impI)
  let ?s' = "s\<lparr>mem := (mem s)(c \<mapsto> r')\<rparr>"
  fix k d assume "calls ?s' k = Some d"
  then have cd: "calls s k = Some d" by simp
  from cd assms(1) obtain q where q: "mem s d = Some q" "wg q = 1" unfolding sc_inv_def by blast
  show "\<exists>r. mem ?s' d = Some r \<and> wg r = 1"
  proof (cases "d = c")
    case True
    with q assms(2,3) have "wg r' = 1" by simp
    with True show ?thesis by simp
  next
    case False with q show ?thesis by simp
  qed
  from cd assms(1) show "\<exists>t'. indexing (pcs ?s' t') = Some (d, k)"
    unfolding sc_inv_def by simp
next
  let ?s' = "s\<lparr>mem := (mem s)(c \<mapsto> r')\<rparr>"
  fix ta tb d assume "owning (pcs ?s' ta) = Some d \<and> owning (pcs ?s' tb) = Some d"
  with assms(1) show "ta = tb" unfolding sc_inv_def by auto
next
  let ?s' = "s\<lparr>mem := (mem s)(c \<mapsto> r')\<rparr>"
  fix ta d assume "owning (pcs ?s' ta) = Some d"
  with assms(1) have "d \<in> dom (mem s)" unfolding sc_inv_def by auto
  then show "d \<in> dom (mem ?s')" by simp
qed

lemma sc_inv_new:
  assumes "sc_inv s" "pcs s t = Entered key fo ex" "calls s key = None" "c \<notin> dom (mem s)"
  shows "sc_inv (s\<lparr>calls := (calls s)(key \<mapsto> c),
                  mem := (mem s)(c \<mapsto> \<lparr>wg = 1, val = None, err = None\<rparr>),
                  pcs := (pcs s)(t := Calling c key fo ex)\<rparr>)"
  unfolding sc_inv_def
proof (intro conjI allI impI)
  let ?s' = "s\<lparr>calls := (calls s)(key \<mapsto> c),
                  mem := (mem s)(c \<mapsto> \<lparr>wg = 1, val = None, err = None\<rparr>),
                  pcs := (pcs s)(t := Calling c key fo ex)\<rparr>"
  fix k d assume kd: "calls ?s' k = Some d"
  show "\<exists>r. mem ?s' d = Some r \<and> wg r = 1"
  proof (cases "k = key")
    case True with kd show ?thesis by simp
  next
    case False
    with kd have "calls s k = Some d" by simp
    with assms(1) obtain r where r: "mem s d = Some r" "wg r = 1" unfolding sc_inv_def by blast
    then have "d \<noteq> c" using assms(4) by auto
    with r show ?thesis by simp
  qed
  show "\<exists>t'. indexing (pcs ?s' t') = Some (d, k)"
  proof (cases "k = key")
    case True
    with kd have "d = c" by simp
    with True have "indexing (pcs ?s' t) = Some (d, k)" by simp
    then show ?thesis by blast
  next
    case False
    with kd have "calls s k = Some d" by simp
    with assms(1) obtain t' where t': "indexing (pcs s t') = Some (d, k)"
      unfolding sc_inv_def by blast
    then have "t' \<noteq> t" using assms(2) by auto
    with t' have "indexing (pcs ?s' t') = Some (d, k)" by simp
    then show ?thesis by blast
  qed
next
  let ?s' = "s\<lparr>calls := (calls s)(key \<mapsto> c),
                  mem := (mem s)(c \<mapsto> \<lparr>wg = 1, val = None, err = None\<rparr>),
                  pcs := (pcs s)(t := Calling c key fo ex)\<rparr>"
  fix ta tb d assume o: "owning (pcs ?s' ta) = Some d \<and> owning (pcs ?s' tb) = Some d"
  have other: "\<And>u. u \<noteq> t \<Longrightarrow> owning (pcs s u) \<noteq> Some c"
    using assms(1,4) unfolding sc_inv_def by blast
  show "ta = tb"
  proof (cases "ta = t")
    case True
    with o have d: "d = c" by simp
    show ?thesis
    proof (rule ccontr)
      assume "ta \<noteq> tb"
      with True have "tb \<noteq> t" by simp
      with o d have "owning (pcs s tb) = Some c" by simp
      with other[OF \<open>tb \<noteq> t\<close>] show False by simp
    qed
  next
    case False
    with o have oa: "owning (pcs s ta) = Some d" by simp
    show ?thesis
    proof (cases "tb = t")
      case True
      with o have "d = c" by simp
      with oa other[OF False] show ?thesis by simp
    next
      case F: False
      with o have "owning (pcs s tb) = Some d" by simp
      with oa assms(1) show ?thesis unfolding sc_inv_def by blast
    qed
  qed
next
  let ?s' = "s\<lparr>calls := (calls s)(key \<mapsto> c),
                  mem := (mem s)(c \<mapsto> \<lparr>wg = 1, val = None, err = None\<rparr>),
                  pcs := (pcs s)(t := Calling c key fo ex)\<rparr>"
  fix ta d assume o: "owning (pcs ?s' ta) = Some d"
  show "d \<in> dom (mem ?s')"
  proof (cases "ta = t")
    case True with o show ?thesis by simp
  next
    case False
    with o have "owning (pcs s ta) = Some d" by simp
    with assms(1) have "d \<in> dom (mem s)" unfolding sc_inv_def by blast
    then show ?thesis by simp
  qed
qed

lemma sc_inv_delete:
  assumes "sc_inv s" "pcs s t = Deferred c key po ex"
  shows "sc_inv (s\<lparr>calls := (calls s)(key := None),
                  pcs := (pcs s)(t := Signalling c po ex)\<rparr>)"
  unfolding sc_inv_def
proof (intro conjI allI impI)
  let ?s' = "s\<lparr>calls := (calls s)(key := None), pcs := (pcs s)(t := Signalling c po ex)\<rparr>"
  fix k d assume kd: "calls ?s' k = Some d"
  then have nk: "k \<noteq> key" and cd: "calls s k = Some d" by (auto split: if_splits)
  from cd assms(1) show "\<exists>r. mem ?s' d = Some r \<and> wg r = 1"
    unfolding sc_inv_def by simp
  from cd assms(1) obtain t' where t': "indexing (pcs s t') = Some (d, k)"
    unfolding sc_inv_def by blast
  then have "t' \<noteq> t" using assms(2) nk by auto
  with t' have "indexing (pcs ?s' t') = Some (d, k)" by simp
  then show "\<exists>t'. indexing (pcs ?s' t') = Some (d, k)" by blast
next
  let ?s' = "s\<lparr>calls := (calls s)(key := None), pcs := (pcs s)(t := Signalling c po ex)\<rparr>"
  fix ta tb d assume "owning (pcs ?s' ta) = Some d \<and> owning (pcs ?s' tb) = Some d"
  then have "owning (pcs s ta) = Some d \<and> owning (pcs s tb) = Some d"
    using assms(2) by (auto split: if_splits)
  with assms(1) show "ta = tb" unfolding sc_inv_def by blast
next
  let ?s' = "s\<lparr>calls := (calls s)(key := None), pcs := (pcs s)(t := Signalling c po ex)\<rparr>"
  fix ta d assume "owning (pcs ?s' ta) = Some d"
  then have "owning (pcs s ta) = Some d" using assms(2) by (auto split: if_splits)
  with assms(1) show "d \<in> dom (mem ?s')" unfolding sc_inv_def by simp
qed

lemma signalling_not_indexed:
  assumes "sc_inv s" "pcs s t = Signalling c po ex"
  shows "calls s key \<noteq> Some c"
proof
  assume "calls s key = Some c"
  with assms(1) obtain t' where t': "indexing (pcs s t') = Some (c, key)"
    unfolding sc_inv_def by blast
  then have o: "owning (pcs s t') = Some c" by (rule indexing_owning)
  have "owning (pcs s t) = Some c" using assms(2) by simp
  with o assms(1) have "t' = t" unfolding sc_inv_def by blast
  with t' assms(2) show False by simp
qed

lemma sc_inv_release:
  assumes "sc_inv s" "pcs s t = Signalling c po ex" "owning p = None"
  shows "sc_inv (s\<lparr>pcs := (pcs s)(t := p)\<rparr>)"
  unfolding sc_inv_def
proof (intro conjI allI impI)
  let ?s' = "s\<lparr>pcs := (pcs s)(t := p)\<rparr>"
  fix k d assume "calls ?s' k = Some d"
  then have cd: "calls s k = Some d" by simp
  from cd assms(1) show "\<exists>r. mem ?s' d = Some r \<and> wg r = 1" unfolding sc_inv_def by simp
  from cd assms(1) obtain t' where t': "indexing (pcs s t') = Some (d, k)"
    unfolding sc_inv_def by blast
  then have "t' \<noteq> t" using assms(2) by auto
  with t' have "indexing (pcs ?s' t') = Some (d, k)" by simp
  then show "\<exists>t'. indexing (pcs ?s' t') = Some (d, k)" by blast
next
  let ?s' = "s\<lparr>pcs := (pcs s)(t := p)\<rparr>"
  fix ta tb d assume "owning (pcs ?s' ta) = Some d \<and> owning (pcs ?s' tb) = Some d"
  then have "owning (pcs s ta) = Some d \<and> owning (pcs s tb) = Some d"
    using assms(3) by (auto split: if_splits)
  with assms(1) show "ta = tb" unfolding sc_inv_def by blast
next
  let ?s' = "s\<lparr>pcs := (pcs s)(t := p)\<rparr>"
  fix ta d assume "owning (pcs ?s' ta) = Some d"
  then have "owning (pcs s ta) = Some d" using assms(3) by (auto split: if_splits)
  with assms(1) show "d \<in> dom (mem ?s')" unfolding sc_inv_def by simp
qed

lemma sc_inv_mem_unindexed:
  assumes "sc_inv s" "mem s c = Some r" "\<forall>key. calls s key \<noteq> Some c"
  shows "sc_inv (s\<lparr>mem := (mem s)(c \<mapsto> r')\<rparr>)"
  unfolding sc_inv_def
proof (intro conjI allI impI)
  let ?s' = "s\<lparr>mem := (mem s)(c \<mapsto> r')\<rparr>"
  fix k d assume "calls ?s' k = Some d"
  then have cd: "calls s k = Some d" by simp
  from cd assms(1) obtain q where q: "mem s d = Some q" "wg q = 1" unfolding sc_inv_def by blast
  have "d \<noteq> c" using cd assms(3) by auto
  with q show "\<exists>r. mem ?s' d = Some r \<and> wg r = 1" by simp
  from cd assms(1) show "\<exists>t'. indexing (pcs ?s' t') = Some (d, k)"
    unfolding sc_inv_def by simp
next
  let ?s' = "s\<lparr>mem := (mem s)(c \<mapsto> r')\<rparr>"
  fix ta tb d assume "owning (pcs ?s' ta) = Some d \<and> owning (pcs ?s' tb) = Some d"
  with assms(1) show "ta = tb" unfolding sc_inv_def by auto
next
  let ?s' = "s\<lparr>mem := (mem s)(c \<mapsto> r')\<rparr>"
  fix ta d assume "owning (pcs ?s' ta) = Some d"
  with assms(1) have "d \<in> dom (mem s)" unfolding sc_inv_def by auto
  then show "d \<in> dom (mem ?s')" by simp
qed

lemma sc_step_inv:
  assumes "sc_step s s'" "sc_inv s"
  shows "sc_inv s'"
  using assms
proof (induction rule: sc_step.induct)
  case (enter s t key fo ex)
  then show ?case by (intro sc_inv_pc_same) simp_all
next
  case (createCall_found s t key fo ex c)
  then show ?case by (intro sc_inv_pc_same) simp_all
next
  case (createCall_new s t key fo ex c)
  then show ?case by (intro sc_inv_new) simp_all
next
  case (wait_released s t c ex r)
  then show ?case by (intro sc_inv_pc_same) simp_all
next
  case (fn_returns s t c key v e ex r)
  have 1: "sc_inv (s\<lparr>mem := (mem s)(c \<mapsto> r\<lparr>val := Some v, err := e\<rparr>)\<rparr>)"
    using fn_returns by (intro sc_inv_mem_same_wg[where r = r]) simp_all
  have "sc_inv ((s\<lparr>mem := (mem s)(c \<mapsto> r\<lparr>val := Some v, err := e\<rparr>)\<rparr>)
                  \<lparr>pcs := (pcs (s\<lparr>mem := (mem s)(c \<mapsto> r\<lparr>val := Some v, err := e\<rparr>)\<rparr>))
                             (t := Deferred c key None ex)\<rparr>)"
    using 1 fn_returns by (intro sc_inv_pc_same) simp_all
  then show ?case by simp
next
  case (fn_panics s t c key p ex)
  then show ?case by (intro sc_inv_pc_same) simp_all
next
  case (delete_key s t c key po ex)
  then show ?case by (intro sc_inv_delete) simp_all
next
  case (wg_done s t c po ex r)
  let ?p = "case po of None \<Rightarrow> Finished (val r) True (err r) | Some p \<Rightarrow> Panicking p"
  have ni: "\<forall>key. calls s key \<noteq> Some c"
    using signalling_not_indexed[OF wg_done(4) wg_done(1)] by blast
  have 1: "sc_inv (s\<lparr>mem := (mem s)(c \<mapsto> r\<lparr>wg := wg r - 1\<rparr>)\<rparr>)"
    using wg_done(4) wg_done(2) ni by (rule sc_inv_mem_unindexed)
  have o: "owning ?p = None" by (cases po) simp_all
  have "sc_inv ((s\<lparr>mem := (mem s)(c \<mapsto> r\<lparr>wg := wg r - 1\<rparr>)\<rparr>)
                  \<lparr>pcs := (pcs (s\<lparr>mem := (mem s)(c \<mapsto> r\<lparr>wg := wg r - 1\<rparr>)\<rparr>))(t := ?p)\<rparr>)"
    using 1 _ o by (rule sc_inv_release[where c = c and po = po and ex = ex]) (simp add: wg_done(1))
  then show ?case by simp
next
  case (wg_done_negative s t c po ex r)
  then show ?case by (intro sc_inv_release[where c = c and po = po and ex = ex]) simp_all
next
  case (returned s t v fresh e)
  then show ?case by (intro sc_inv_pc_same) simp_all
next
  case (recovered s t p)
  then show ?case by (intro sc_inv_pc_same) simp_all
qed

lemma sc_reachable_inv: "sc_reachable s \<Longrightarrow> sc_inv s"
  by (induction rule: sc_reachable.induct) (auto intro: sc_inv_init sc_step_inv)

lemma sc_step_signal:
  assumes "sc_step s s'" "mem s c = Some r" "wg r = 1" "mem s' c = Some r'" "wg r' = 0"
  shows "\<exists>t po ex. pcs s t = Signalling c po ex \<and> calls s' = calls s"
  using assms
proof (induction rule: sc_step.induct)
  case (wg_done s t d po ex q)
  then have "d = c" by (auto split: if_splits)
  with wg_done show ?case by auto
qed (auto split: if_splits)

text \<open>
  C4. In every state that the interleaved executions of \<open>Do\<close> and \<open>DoEx\<close> can reach
  (whatever \<open>fn\<close> does: it returns a value, returns an error, or panics): a record that
  a key maps to exists and its completion signal is still pending; and whenever a step
  releases the completion signal of a record (its counter goes from 1 to 0), no key maps
  to that record before the step nor after it, so the key was deleted strictly earlier.
\<close>

theorem key_deleted_before_signal:
  assumes "sc_reachable s"
  shows "(\<forall>key c. calls s key = Some c \<longrightarrow> (\<exists>r. mem s c = Some r \<and> wg r = 1)) \<and>
         (\<forall>key c r. calls s key = Some c \<and> mem s c = Some r \<longrightarrow> wg r \<noteq> 0) \<and>
         (\<forall>t c po ex key. pcs s t = Signalling c po ex \<longrightarrow> calls s key \<noteq> Some c) \<and>
         (\<forall>s' c r r'. sc_step s s' \<and> mem s c = Some r \<and> wg r = 1 \<and>
                       mem s' c = Some r' \<and> wg r' = 0 \<longrightarrow>
            (\<forall>key. calls s key \<noteq> Some c \<and> calls s' key \<noteq> Some c))"
proof -
  have inv: "sc_inv s" using assms by (rule sc_reachable_inv)
  have a: "\<forall>key c. calls s key = Some c \<longrightarrow> (\<exists>r. mem s c = Some r \<and> wg r = 1)"
    using inv unfolding sc_inv_def by blast
  have b: "\<forall>key c r. calls s key = Some c \<and> mem s c = Some r \<longrightarrow> wg r \<noteq> 0"
  proof (intro allI impI)
    fix key c r assume h: "calls s key = Some c \<and> mem s c = Some r"
    with a obtain q where "mem s c = Some q" "wg q = 1" by blast
    with h show "wg r \<noteq> 0" by simp
  qed
  have c: "\<forall>t c po ex key. pcs s t = Signalling c po ex \<longrightarrow> calls s key \<noteq> Some c"
    using signalling_not_indexed[OF inv] by blast
  have d: "\<forall>s' c r r'. sc_step s s' \<and> mem s c = Some r \<and> wg r = 1 \<and>
                       mem s' c = Some r' \<and> wg r' = 0 \<longrightarrow>
            (\<forall>key. calls s key \<noteq> Some c \<and> calls s' key \<noteq> Some c)"
  proof (intro allI impI)
    fix s' c r r' key
    assume h: "sc_step s s' \<and> mem s c = Some r \<and> wg r = 1 \<and> mem s' c = Some r' \<and> wg r' = 0"
    then obtain t po ex where t: "pcs s t = Signalling c po ex" "calls s' = calls s"
      using sc_step_signal[of s s' c r r'] by blast
    have "calls s key \<noteq> Some c" using signalling_not_indexed[OF inv t(1)] .
    with t(2) show "calls s key \<noteq> Some c \<and> calls s' key \<noteq> Some c" by simp
  qed
  show ?thesis using a b c d by blast
qed

theorem key_deleted_before_signal_witness:
  "sc_reachable
     (\<lparr>calls = [''k'' \<mapsto> 0], mem = [0 \<mapsto> \<lparr>wg = 1, val = None, err = None\<rparr>],
       pcs = (\<lambda>t. Idle)(0 := Calling 0 ''k'' (FnPanics DivideByZero) True)\<rparr> :: nat sharedGroup) \<and>
   (\<exists>r. [0 \<mapsto> \<lparr>wg = 1, val = None :: nat option, err = None\<rparr>] 0 = Some r \<and> wg r = 1)"
proof -
  let ?ini = "NewSharedCalls :: nat sharedGroup"
  let ?ent = "?ini\<lparr>pcs := (pcs ?ini)(0 := Entered ''k'' (FnPanics DivideByZero) True)\<rparr>"
  let ?cre = "?ent\<lparr>calls := (calls ?ent)(''k'' \<mapsto> 0),
                 mem := (mem ?ent)(0 \<mapsto> \<lparr>wg = 1, val = None, err = None\<rparr>),
                 pcs := (pcs ?ent)(0 := Calling 0 ''k'' (FnPanics DivideByZero) True)\<rparr>"
  let ?s = "\<lparr>calls = [''k'' \<mapsto> 0], mem = [0 \<mapsto> \<lparr>wg = 1, val = None, err = None\<rparr>],
       pcs = (\<lambda>t. Idle)(0 := Calling 0 ''k'' (FnPanics DivideByZero) True)\<rparr> :: nat sharedGroup"
  have r0: "sc_reachable ?ini" by (rule sc_init)
  have st1: "sc_step ?ini ?ent" by (rule enter) (simp add: NewSharedCalls_def)
  have r1: "sc_reachable ?ent" using r0 st1 by (rule sc_next)
  have st2: "sc_step ?ent ?cre"
    by (rule createCall_new[where fo = "FnPanics DivideByZero" and ex = True])
       (simp_all add: NewSharedCalls_def)
  have r2: "sc_reachable ?cre" using r1 st2 by (rule sc_next)
  have e: "?cre = ?s" by (simp add: NewSharedCalls_def)
  have r: "sc_reachable ?s" using r2 by (simp add: NewSharedCalls_def)
  from key_deleted_before_signal[OF r] r show ?thesis by simp
qed

section \<open>The readings of a breaker in use\<close>

text \<open>
  A breaker made by \<open>newGoogleBreaker\<close> has a well-formed window and \<open>k = 1.5\<close>, and a
  window whose buckets hold non-negative sums and counts gives a non-negative reading.
\<close>

lemma newGoogleBreaker_wf:
  assumes "newGoogleBreaker rnd now = Inr b"
  shows "rw_wf (gb_stat b) \<and> gb_k b = 3 / 2 \<and> interval (gb_stat b) = 250000000 \<and>
         rw_size (gb_stat b) = 40 \<and> \<not> ignoreCurrent (gb_stat b)"
  using assms
  by (auto simp: newGoogleBreaker_def go_quot_def breaker_window_def breaker_buckets_def
        breaker_k_def NewRollingWindow_def rw_wf_def newWindow_def signed_divide_int_def
        split: if_splits)

lemma history_fold_nonneg:
  assumes "\<forall>bk \<in> set bs. 0 \<le> Count bk \<and> 0 \<le> Sum bk" "0 \<le> fst acc" "0 \<le> snd acc"
  shows "0 \<le> fst (fold (\<lambda>bk (accepts, tot). (accepts + go_trunc (Sum bk), tot + Count bk)) bs acc) \<and>
         0 \<le> snd (fold (\<lambda>bk (accepts, tot). (accepts + go_trunc (Sum bk), tot + Count bk)) bs acc)"
  using assms
proof (induction bs arbitrary: acc)
  case Nil
  then show ?case by simp
next
  case (Cons b bs)
  obtain a t where acc: "acc = (a, t)" by (cases acc)
  have "0 \<le> go_trunc (Sum b)" using Cons.prems(1) by (simp add: go_trunc_def)
  then have "0 \<le> fst (a + go_trunc (Sum b), t + Count b)" "0 \<le> snd (a + go_trunc (Sum b), t + Count b)"
    using Cons.prems acc by simp_all
  from Cons.IH[OF _ this] Cons.prems(1) show ?case by (simp add: acc)
qed

lemma history_nonneg:
  assumes "rw_wf (gb_stat b)" "\<forall>bk \<in> set (buckets (win (gb_stat b))). 0 \<le> Count bk \<and> 0 \<le> Sum bk"
    "history b now = Inr (accepts, tot)"
  shows "0 \<le> accepts \<and> 0 \<le> tot"
proof -
  let ?rw = "gb_stat b"
  let ?f = "\<lambda>bk (accepts, tot). (accepts + go_trunc (Sum bk), tot + Count bk)"
  from assms(3) obtain sp where sp: "span_rw ?rw now = Inr sp"
    by (cases "span_rw ?rw now") (simp_all add: history_def Reduce_def)
  define visited where "visited =
    map (\<lambda>k. buckets (win ?rw) ! nat (((offset ?rw + sp + 1) mod rw_size ?rw + k) mod rw_size ?rw))
      [0..(if sp = 0 \<and> ignoreCurrent ?rw then rw_size ?rw - 1 else rw_size ?rw - sp) - 1]"
  have red: "Reduce ?rw now ?f (0, 0) = Inr (fold ?f visited (0, 0))"
    unfolding visited_def by (rule Reduce_fold[OF assms(1) sp])
  have n: "0 < rw_size ?rw" "int (length (buckets (win ?rw))) = rw_size ?rw"
    using assms(1) by (simp_all add: rw_wf_def)
  have "set visited \<subseteq> set (buckets (win ?rw))"
  proof
    fix x assume "x \<in> set visited"
    then obtain k where "x = buckets (win ?rw) ! nat (((offset ?rw + sp + 1) mod rw_size ?rw + k) mod rw_size ?rw)"
      unfolding visited_def by auto
    moreover have "nat (((offset ?rw + sp + 1) mod rw_size ?rw + k) mod rw_size ?rw) < length (buckets (win ?rw))"
      using n by (simp add: nat_less_iff)
    ultimately show "x \<in> set (buckets (win ?rw))" by simp
  qed
  then have "\<forall>bk \<in> set visited. 0 \<le> Count bk \<and> 0 \<le> Sum bk" using assms(2) by blast
  from history_fold_nonneg[OF this, of "(0, 0)"] red assms(3)
  show ?thesis by (simp add: history_def)
qed

end
